theory Spec2Isabelle
  imports Main "HOL-Library.Word"
begin

unbundle bit_operations_syntax

section \<open>The flow queue of flow-queue.c\<close>

subsection \<open>Memory: flow records, queues, synchronisation events\<close>

text \<open>
  A \<open>Flow *\<close> is \<open>None\<close> for \<open>NULL\<close> and \<open>Some a\<close> for the record at address \<open>a\<close>.
  Only the two link fields of a flow record are used by flow-queue.c.
\<close>

type_synonym flow_ptr = "nat option"

record Flow =
  lnext :: flow_ptr
  lprev :: flow_ptr

text \<open>
  What the code does to \<open>mutex_q\<close> and \<open>cond_q\<close> outside of locking: \<open>memset\<close> leaves
  them zeroed, the init calls make them usable, the destroy calls release them.
\<close>

datatype sync_state = Zeroed | Initialised | Destroyed

text \<open>
  Modelled from the spec: the declaration of \<open>struct FlowQueue_\<close> (flow-queue.h) is not
  among the source files. The fields are the ones flow-queue.c uses; \<open>top\<close> and \<open>bot\<close>
  carry the suffix \<open>_q\<close> because HOL has constants of these names. Section 3 of the
  specification describes the length as the count of owned records, so \<open>len\<close> (and the
  diagnostic \<open>dbg_maxlen\<close>) is an integer that \<open>len++\<close> and \<open>len--\<close> move by one.
\<close>

record FlowQueue =
  top_q :: flow_ptr
  bot_q :: flow_ptr
  len :: int
  dbg_maxlen :: int
  mutex_q :: sync_state
  cond_q :: sync_state

text \<open>
  The calls on the synchronisation primitives are recorded in the order in which they are
  made. flow-queue.c never waits on \<open>cond_q\<close>; the constructor \<open>CondWait\<close> is there so
  that this can be said of a trace.
\<close>

datatype sync_event = MutexLock nat | MutexUnlock nat | CondWait nat

record state =
  flows :: "nat \<Rightarrow> Flow"
  queues :: "nat \<Rightarrow> FlowQueue"
  trace :: "sync_event list"

text \<open>
  \<open>SCMutexLock\<close> and \<open>SCMutexUnlock\<close> (on Tile: \<open>tmc_spin_queued_mutex_lock\<close> and
  \<open>tmc_spin_queued_mutex_unlock\<close>, called at the same places) on the mutex of queue \<open>q\<close>.
\<close>

definition SCMutexLock :: "nat \<Rightarrow> state \<Rightarrow> state" where
  "SCMutexLock q s = s\<lparr>trace := trace s @ [MutexLock q]\<rparr>"

definition SCMutexUnlock :: "nat \<Rightarrow> state \<Rightarrow> state" where
  "SCMutexUnlock q s = s\<lparr>trace := trace s @ [MutexUnlock q]\<rparr>"

text \<open>Assignments to one field of one record.\<close>

definition set_lnext :: "nat \<Rightarrow> flow_ptr \<Rightarrow> state \<Rightarrow> state" where
  "set_lnext f v s = s\<lparr>flows := (flows s)(f := (flows s f)\<lparr>lnext := v\<rparr>)\<rparr>"

definition set_lprev :: "nat \<Rightarrow> flow_ptr \<Rightarrow> state \<Rightarrow> state" where
  "set_lprev f v s = s\<lparr>flows := (flows s)(f := (flows s f)\<lparr>lprev := v\<rparr>)\<rparr>"

definition set_top :: "nat \<Rightarrow> flow_ptr \<Rightarrow> state \<Rightarrow> state" where
  "set_top q v s = s\<lparr>queues := (queues s)(q := (queues s q)\<lparr>top_q := v\<rparr>)\<rparr>"

definition set_bot :: "nat \<Rightarrow> flow_ptr \<Rightarrow> state \<Rightarrow> state" where
  "set_bot q v s = s\<lparr>queues := (queues s)(q := (queues s q)\<lparr>bot_q := v\<rparr>)\<rparr>"

definition set_len :: "nat \<Rightarrow> int \<Rightarrow> state \<Rightarrow> state" where
  "set_len q v s = s\<lparr>queues := (queues s)(q := (queues s q)\<lparr>len := v\<rparr>)\<rparr>"

text \<open>The \<open>DBG_PERF\<close> block: \<open>if (q->len > q->dbg_maxlen) q->dbg_maxlen = q->len\<close>.\<close>

definition dbg_perf_update :: "bool \<Rightarrow> nat \<Rightarrow> state \<Rightarrow> state" where
  "dbg_perf_update dbg_perf q s =
     (if dbg_perf \<and> len (queues s q) > dbg_maxlen (queues s q)
      then s\<lparr>queues := (queues s)(q := (queues s q)\<lparr>dbg_maxlen := len (queues s q)\<rparr>)\<rparr>
      else s)"

subsection \<open>Creation and destruction\<close>

text \<open>
  \<open>FlowQueueInit\<close>: \<open>memset\<close> to zero, then the two init calls. With \<open>__tile__\<close> defined
  the mutex is initialised and \<open>cond_q\<close> is assigned 0, the value \<open>memset\<close> left there.
\<close>

definition zeroed_queue :: FlowQueue where
  "zeroed_queue = \<lparr>top_q = None, bot_q = None, len = 0, dbg_maxlen = 0,
                    mutex_q = Zeroed, cond_q = Zeroed\<rparr>"

definition FlowQueueInit :: "bool \<Rightarrow> nat option \<Rightarrow> state \<Rightarrow> nat option \<times> state" where
  "FlowQueueInit tile q s =
     (case q of
        None \<Rightarrow> (None, s)
      | Some a \<Rightarrow>
          (let s1 = s\<lparr>queues := (queues s)(a := zeroed_queue)\<rparr>;
               s2 = s1\<lparr>queues := (queues s1)(a := (queues s1 a)\<lparr>mutex_q := Initialised\<rparr>)\<rparr>;
               s3 = s2\<lparr>queues := (queues s2)(a := (queues s2 a)
                        \<lparr>cond_q := (if tile then Zeroed else Initialised)\<rparr>)\<rparr>
           in (Some a, s3)))"

text \<open>
  \<open>FlowQueueNew\<close>: the result of \<open>SCMalloc\<close> is the argument \<open>alloc\<close>; on \<open>NULL\<close> the code
  logs and calls \<open>exit\<close>, which is the outcome \<open>Exited\<close>.
\<close>

datatype 'a outcome = Exited | Returned 'a

definition FlowQueueNew :: "bool \<Rightarrow> nat option \<Rightarrow> state \<Rightarrow> (nat option \<times> state) outcome" where
  "FlowQueueNew tile alloc s =
     (case alloc of
        None \<Rightarrow> Exited
      | Some a \<Rightarrow> Returned (FlowQueueInit tile (Some a) s))"

text \<open>The state in which the wait primitive is ready for use in the given build.\<close>

definition cond_ready :: "bool \<Rightarrow> sync_state \<Rightarrow> bool" where
  "cond_ready tile c = (c = (if tile then Zeroed else Initialised))"

text \<open>\<open>FlowQueueDestroy\<close>: empty with \<open>__tile__\<close>, the two destroy calls otherwise.\<close>

definition FlowQueueDestroy :: "bool \<Rightarrow> nat \<Rightarrow> state \<Rightarrow> state" where
  "FlowQueueDestroy tile q s =
     (if tile then s
      else (let s1 = s\<lparr>queues := (queues s)(q := (queues s q)\<lparr>mutex_q := Destroyed\<rparr>)\<rparr>
            in s1\<lparr>queues := (queues s1)(q := (queues s1 q)\<lparr>cond_q := Destroyed\<rparr>)\<rparr>))"

subsection \<open>Insert, poll-remove, transfer\<close>

text \<open>
  The queue and record pointers of \<open>FlowEnqueue\<close> and \<open>FlowDequeue\<close> are dereferenced
  without a test, so the model takes addresses. \<open>dbg_perf\<close> says whether \<open>DBG_PERF\<close> is
  defined.
\<close>

definition FlowEnqueue :: "bool \<Rightarrow> nat \<Rightarrow> nat \<Rightarrow> state \<Rightarrow> state" where
  "FlowEnqueue dbg_perf q f s =
     (let s1 = (case top_q (queues s q) of
                  Some t \<Rightarrow>
                    (let a = set_lnext f (Some t) s;
                         b = set_lprev t (Some f) a
                     in set_top q (Some f) b)
                | None \<Rightarrow> set_bot q (Some f) (set_top q (Some f) s));
          s2 = set_len q (len (queues s1 q) + 1) s1
      in dbg_perf_update dbg_perf q s2)"

definition FlowDequeue :: "nat \<Rightarrow> state \<Rightarrow> flow_ptr \<times> state" where
  "FlowDequeue q s0 =
     (let s = SCMutexLock q s0
      in case bot_q (queues s q) of
           None \<Rightarrow> (None, SCMutexUnlock q s)
         | Some f \<Rightarrow>
             (let s1 = (case lprev (flows s f) of
                          Some p \<Rightarrow>
                            (let a = set_bot q (Some p) s
                             in set_lnext p None a)
                        | None \<Rightarrow> set_bot q None (set_top q None s));
                  s2 = set_len q (len (queues s1 q) - 1) s1;
                  s3 = set_lnext f None s2;
                  s4 = set_lprev f None s3
              in (Some f, SCMutexUnlock q s4)))"

text \<open>The block under the comment "remove from old queue", up to clearing the links.\<close>

definition requeue_remove :: "nat \<Rightarrow> nat \<Rightarrow> state \<Rightarrow> state" where
  "requeue_remove f a s =
     (let s1 = (if top_q (queues s a) = Some f then set_top a (lnext (flows s f)) s else s);
          s2 = (if bot_q (queues s1 a) = Some f then set_bot a (lprev (flows s1 f)) s1 else s1);
          s3 = (case lprev (flows s2 f) of
                  Some p \<Rightarrow> set_lnext p (lnext (flows s2 f)) s2
                | None \<Rightarrow> s2);
          s4 = (case lnext (flows s3 f) of
                  Some n \<Rightarrow> set_lprev n (lprev (flows s3 f)) s3
                | None \<Rightarrow> s3);
          s5 = set_len a (len (queues s4 a) - 1) s4;
          s6 = set_lnext f None s5
      in set_lprev f None s6)"

text \<open>The block under the comment "add to new queue (append)", with its \<open>DBG_PERF\<close> part.\<close>

definition requeue_append :: "bool \<Rightarrow> nat \<Rightarrow> nat \<Rightarrow> state \<Rightarrow> state" where
  "requeue_append dbg_perf f d s =
     (let s1 = set_lprev f (bot_q (queues s d)) s;
          s2 = (case lprev (flows s1 f) of
                  Some p \<Rightarrow> set_lnext p (Some f) s1
                | None \<Rightarrow> s1);
          s3 = set_lnext f None s2;
          s4 = set_bot d (Some f) s3;
          s5 = (if top_q (queues s4 d) = None then set_top d (Some f) s4 else s4);
          s6 = set_len d (len (queues s5 d) + 1) s5
      in dbg_perf_update dbg_perf d s6)"

text \<open>
  \<open>FlowRequeue\<close>. The source queue may be \<open>NULL\<close>; the destination is dereferenced
  without a test (a \<open>NULL\<close> destination is caught only by \<open>BUG_ON\<close> under \<open>DEBUG\<close>), so it
  is an address. \<open>need_srclock\<close> is the \<open>uint8_t\<close> argument, compared with 1.
  \<open>requeue_src\<close> is the statement \<open>if (srcq != NULL) { ... }\<close>, \<open>requeue_dst\<close> the rest of
  the function body, from the comment "now put it in dst".
\<close>

definition requeue_src :: "nat \<Rightarrow> nat option \<Rightarrow> nat \<Rightarrow> 8 word \<Rightarrow> state \<Rightarrow> state" where
  "requeue_src f srcq dstq need_srclock s =
     (case srcq of
        None \<Rightarrow> s
      | Some a \<Rightarrow>
          (let t1 = (if need_srclock = 1 then SCMutexLock a s else s);
               t2 = requeue_remove f a t1
           in if a \<noteq> dstq \<and> need_srclock = 1 then SCMutexUnlock a t2 else t2))"

definition requeue_dst :: "bool \<Rightarrow> nat \<Rightarrow> nat option \<Rightarrow> nat \<Rightarrow> state \<Rightarrow> state" where
  "requeue_dst dbg_perf f srcq dstq s =
     (let s1 = (if srcq \<noteq> Some dstq then SCMutexLock dstq s else s);
          s2 = requeue_append dbg_perf f dstq s1
      in SCMutexUnlock dstq s2)"

definition FlowRequeue :: "bool \<Rightarrow> nat \<Rightarrow> nat option \<Rightarrow> nat \<Rightarrow> 8 word \<Rightarrow> state \<Rightarrow> state" where
  "FlowRequeue dbg_perf f srcq dstq need_srclock s =
     requeue_dst dbg_perf f srcq dstq (requeue_src f srcq dstq need_srclock s)"

section \<open>The ERF file reader of source-erf-file.c\<close>

type_synonym byte = "8 word"

text \<open>
  The stream behind \<open>FILE *erf\<close>: the bytes not yet read, and whether a read on it fails
  with an error. \<open>fread1 sz fp\<close> is \<open>fread(buf, sz, 1, fp)\<close>: it returns the number of
  items read (0 or 1, and 0 for a zero size), the bytes stored in the buffer, and the
  stream afterwards. A read that reaches the end of the file stores what was left.
\<close>

record erf_file =
  content :: "byte list"
  io_error :: bool

definition fread1 :: "nat \<Rightarrow> erf_file \<Rightarrow> int \<times> byte list \<times> erf_file" where
  "fread1 sz fp =
     (if sz = 0 then (0, [], fp)
      else if io_error fp then (0, [], fp)
      else if length (content fp) < sz then (0, content fp, fp\<lparr>content := []\<rparr>)
      else (1, take sz (content fp), fp\<lparr>content := drop sz (content fp)\<rparr>))"

text \<open>
  The packed \<open>DagRecord\<close> is 18 bytes: \<open>ts\<close> at offset 0, \<open>type\<close> at 8, \<open>flags\<close> at 9,
  \<open>rlen\<close> at 10, \<open>lctr\<close> at 12, \<open>wlen\<close> at 14, \<open>pad\<close> at 16. \<open>ntohs\<close> of a 16-bit field
  is the big-endian value of its two bytes; \<open>ts\<close> is read in host byte order, little-endian
  on the hosts this reader is built for.
\<close>

definition sizeof_DagRecord :: nat where
  "sizeof_DagRecord = 18"

definition DAG_TYPE_ETH :: byte where
  "DAG_TYPE_ETH = 2"

definition ntohs_at :: "byte list \<Rightarrow> nat \<Rightarrow> int" where
  "ntohs_at dr off = uint (dr ! off) * 256 + uint (dr ! (off + 1))"

definition dr_ts :: "byte list \<Rightarrow> 64 word" where
  "dr_ts dr = foldr (\<lambda>b acc. ucast b + acc * 256) (take 8 dr) 0"

definition dr_type :: "byte list \<Rightarrow> byte" where
  "dr_type dr = dr ! 8"

text \<open>
  Modelled from the spec: the declarations of \<open>Packet\<close>, \<open>TmEcode\<close>, \<open>EngineStop\<close>,
  \<open>GET_PKT_LEN\<close>, \<open>GET_PKT_DATA\<close> and \<open>LINKTYPE_ETHERNET\<close> are not among the source
  files. Section 6 of the specification names what the packet source hands on: the raw
  frame, its byte length and its capture timestamp. The packet has these fields and the
  link type, which are the fields the reader assigns. \<open>pkt_data\<close> is the content of the
  buffer behind \<open>GET_PKT_DATA(p)\<close>: its length is the capacity of the buffer, which the
  caller fixes and no read changes. \<open>pktlen\<close> is the unsigned 32-bit field behind
  \<open>GET_PKT_LEN(p)\<close>, so that the assignment of \<open>wlen - 4\<close> wraps around for \<open>wlen < 4\<close>.
  The fields of \<open>struct timeval\<close> are integers (the seconds are below \<open>2^32 + 1\<close> and the
  microseconds at most 1000000, which fit the types they have). The link type constant
  is an argument; the return codes are the two the reader returns; that \<open>EngineStop\<close> was
  called is part of the result.
\<close>

record timeval =
  tv_sec :: int
  tv_usec :: int

record Packet =
  pkt_data :: "byte list"
  pktlen :: "32 word"
  datalink :: int
  ts :: timeval

datatype TmEcode = TM_ECODE_OK | TM_ECODE_FAILED

record ErfFileThreadVars =
  erf :: erf_file
  pkts :: "32 word"
  bytes :: "64 word"

record erf_result =
  ecode :: TmEcode
  engine_stopped :: bool
  pkt :: Packet
  etv :: ErfFileThreadVars

text \<open>The block under the comment "Convert ERF time to timeval - from libpcap".\<close>

definition erf_timeval :: "64 word \<Rightarrow> timeval" where
  "erf_timeval t0 =
     (let sec = uint (drop_bit 32 t0);
          t1 = (t0 AND 0xffffffff) * 1000000;
          t2 = t1 + 0x80000000;
          usec = uint (drop_bit 32 t2)
      in if usec \<ge> 1000000
         then \<lparr>tv_sec = sec + 1, tv_usec = usec - 1000000\<rparr>
         else \<lparr>tv_sec = sec, tv_usec = usec\<rparr>)"

text \<open>
  \<open>fread\<close> stores the bytes it read at the start of the packet buffer, and neither it
  nor \<open>ReceiveErfFile\<close> compares their number with the capacity of the buffer. A read
  that delivers more bytes than the buffer holds writes past its end; what the program
  does then is not defined, and the model stops with the fault \<open>WritePastPacketBuffer\<close>.
  The size of the second read is \<open>rlen - sizeof(DagRecord)\<close> computed in \<open>size_t\<close>,
  64 bits wide here.
\<close>

datatype erf_fault = WritePastPacketBuffer

definition store_pkt_data :: "byte list \<Rightarrow> Packet \<Rightarrow> erf_fault + Packet" where
  "store_pkt_data buf p =
     (if length buf > length (pkt_data p) then Inl WritePastPacketBuffer
      else Inr (p\<lparr>pkt_data := buf @ drop (length buf) (pkt_data p)\<rparr>))"

definition ReceiveErfFile ::
    "int \<Rightarrow> Packet \<Rightarrow> ErfFileThreadVars \<Rightarrow> erf_fault + erf_result" where
  "ReceiveErfFile LINKTYPE_ETHERNET p e =
     (case fread1 sizeof_DagRecord (erf e) of
        (r, dr, fp1) \<Rightarrow>
          if r < 1
          then Inr \<lparr>ecode = TM_ECODE_FAILED, engine_stopped = True, pkt = p,
                    etv = e\<lparr>erf := fp1\<rparr>\<rparr>
          else
            (let rlen = ntohs_at dr 10;
                 wlen = ntohs_at dr 14
             in case fread1 (nat ((rlen - int sizeof_DagRecord) mod 2 ^ 64)) fp1 of
                  (r2, buf, fp2) \<Rightarrow>
                    (case store_pkt_data buf p of
                       Inl fault \<Rightarrow> Inl fault
                     | Inr p1 \<Rightarrow>
                         if r2 < 1
                         then Inr \<lparr>ecode = TM_ECODE_FAILED, engine_stopped = True, pkt = p1,
                                   etv = e\<lparr>erf := fp2\<rparr>\<rparr>
                         else if dr_type dr \<noteq> DAG_TYPE_ETH
                         then Inr \<lparr>ecode = TM_ECODE_FAILED, engine_stopped = False, pkt = p1,
                                   etv = e\<lparr>erf := fp2\<rparr>\<rparr>
                         else
                           (let p2 = p1\<lparr>pktlen := word_of_int (wlen - 4),
                                        datalink := LINKTYPE_ETHERNET,
                                        ts := erf_timeval (dr_ts dr)\<rparr>
                            in Inr \<lparr>ecode = TM_ECODE_OK, engine_stopped = False, pkt = p2,
                                    etv = e\<lparr>erf := fp2, pkts := pkts e + 1,
                                            bytes := bytes e + word_of_int wlen\<rparr>\<rparr>))))"






section \<open>The list a queue holds\<close>

text \<open>
  \<open>chain fld h p xs e\<close>: starting at pointer \<open>p\<close> and following the link field \<open>fld\<close>
  in the heap \<open>h\<close>, the records visited are \<open>xs\<close>, in this order, and the pointer found
  after the last of them is \<open>e\<close>.
\<close>

fun chain :: "(Flow \<Rightarrow> flow_ptr) \<Rightarrow> (nat \<Rightarrow> Flow) \<Rightarrow> flow_ptr \<Rightarrow> nat list \<Rightarrow> flow_ptr \<Rightarrow> bool" where
  "chain fld h p [] e = (p = e)"
| "chain fld h p (x # xs) e = (p = Some x \<and> chain fld h (fld (h x)) xs e)"

text \<open>
  A doubly linked list between \<open>t\<close> and \<open>b\<close>: following \<open>lnext\<close> from \<open>t\<close> visits \<open>xs\<close>
  and ends at \<open>NULL\<close>, following \<open>lprev\<close> from \<open>b\<close> visits the same records in the
  opposite order and ends at \<open>NULL\<close>.
\<close>

definition dll :: "(nat \<Rightarrow> Flow) \<Rightarrow> flow_ptr \<Rightarrow> flow_ptr \<Rightarrow> nat list \<Rightarrow> bool" where
  "dll h t b xs = (chain lnext h t xs None \<and> chain lprev h b (rev xs) None)"

text \<open>Queue \<open>q\<close> holds the records \<open>xs\<close>, from \<open>top\<close> (newest) to \<open>bot\<close> (oldest).\<close>

definition queue_list :: "state \<Rightarrow> nat \<Rightarrow> nat list \<Rightarrow> bool" where
  "queue_list s q xs = dll (flows s) (top_q (queues s q)) (bot_q (queues s q)) xs"

text \<open>The structural invariant: the queue holds \<open>xs\<close> and its length field counts them.\<close>

definition queue_inv :: "state \<Rightarrow> nat \<Rightarrow> nat list \<Rightarrow> bool" where
  "queue_inv s q xs = (queue_list s q xs \<and> len (queues s q) = int (length xs))"

section \<open>Sequences of calls, lock sets, example states\<close>

text \<open>Insert the records \<open>rs\<close> one after the other, first to last.\<close>

fun enqueue_all :: "bool \<Rightarrow> nat \<Rightarrow> nat list \<Rightarrow> state \<Rightarrow> state" where
  "enqueue_all dbg_perf q [] s = s"
| "enqueue_all dbg_perf q (r # rs) s = enqueue_all dbg_perf q rs (FlowEnqueue dbg_perf q r s)"

text \<open>Call \<open>FlowDequeue\<close> \<open>n\<close> times; the results are listed in the order of the calls.\<close>

fun dequeue_n :: "nat \<Rightarrow> nat \<Rightarrow> state \<Rightarrow> flow_ptr list \<times> state" where
  "dequeue_n q 0 s = ([], s)"
| "dequeue_n q (Suc n) s =
     (case FlowDequeue q s of
        (r, s1) \<Rightarrow> (case dequeue_n q n s1 of (rs, s2) \<Rightarrow> (r # rs, s2)))"

text \<open>
  The mutexes held after an event, and whether the mutexes of queues \<open>a\<close> and \<open>d\<close> are
  both held at some moment of a trace that starts with the set \<open>H\<close> held.
\<close>

fun lock_step :: "nat set \<Rightarrow> sync_event \<Rightarrow> nat set" where
  "lock_step H (MutexLock q) = insert q H"
| "lock_step H (MutexUnlock q) = H - {q}"
| "lock_step H (CondWait q) = H"

fun both_held :: "nat \<Rightarrow> nat \<Rightarrow> nat set \<Rightarrow> sync_event list \<Rightarrow> bool" where
  "both_held a d H [] = (a \<in> H \<and> d \<in> H)"
| "both_held a d H (e # es) = ((a \<in> H \<and> d \<in> H) \<or> both_held a d (lock_step H e) es)"

text \<open>The events a call added to the trace.\<close>

definition events_since :: "state \<Rightarrow> state \<Rightarrow> sync_event list" where
  "events_since s s' = drop (length (trace s)) (trace s')"

text \<open>
  A state in which no record is linked and every queue is as \<open>memset\<close> leaves it, and
  the state after inserting records 1, 2 and 3, in this order, into queue 0.
\<close>

definition blank_state :: state where
  "blank_state = \<lparr>flows = (\<lambda>_. \<lparr>lnext = None, lprev = None\<rparr>),
                   queues = (\<lambda>_. zeroed_queue), trace = []\<rparr>"

definition three_state :: state where
  "three_state = enqueue_all False 0 [1, 2, 3] blank_state"

text \<open>
  An ERF header with record type \<open>t\<close>, timestamp 1 second, \<open>rlen\<close> 22 and \<open>wlen\<close> \<open>w\<close>;
  a packet with a buffer of eight bytes before the first read; thread variables over a
  stream.
\<close>

definition erf_header :: "byte \<Rightarrow> byte \<Rightarrow> byte list" where
  "erf_header t w = [0, 0, 0, 0, 1, 0, 0, 0, t, 0, 0, 22, 0, 0, 0, w, 0, 0]"

definition fresh_packet :: Packet where
  "fresh_packet = \<lparr>pkt_data = [0, 0, 0, 0, 0, 0, 0, 0], pktlen = 0, datalink = 0,
                    ts = \<lparr>tv_sec = 0, tv_usec = 0\<rparr>\<rparr>"

definition erf_vars :: "byte list \<Rightarrow> bool \<Rightarrow> ErfFileThreadVars" where
  "erf_vars bs err = \<lparr>erf = \<lparr>content = bs, io_error = err\<rparr>, pkts = 0, bytes = 0\<rparr>"

section \<open>Properties of creation and destruction\<close>

text \<open>
  Claim C7. \<open>FlowQueueNew\<close> has two outcomes and no third: when the allocation fails the
  process exits; otherwise the caller gets the allocated address, never \<open>NULL\<close>, and the
  queue there has \<open>top\<close> and \<open>bot\<close> unset, length 0, an initialised mutex and a wait
  primitive ready for use.
\<close>

theorem FlowQueueNew_exits_or_returns_initialised:
  "(alloc = None \<and> FlowQueueNew tile alloc s = Exited) \<or>
   (\<exists>a s'. alloc = Some a \<and> FlowQueueNew tile alloc s = Returned (Some a, s') \<and>
        top_q (queues s' a) = None \<and> bot_q (queues s' a) = None \<and>
        len (queues s' a) = 0 \<and> dbg_maxlen (queues s' a) = 0 \<and>
        mutex_q (queues s' a) = Initialised \<and> cond_ready tile (cond_q (queues s' a)))"
  by (cases alloc)
     (simp_all add: FlowQueueNew_def FlowQueueInit_def Let_def zeroed_queue_def cond_ready_def)

text \<open>
  Claim C8. \<open>FlowQueueDestroy\<close> changes no flow record, no \<open>top\<close>, \<open>bot\<close> or length of
  any queue, and records no lock operation; without \<open>__tile__\<close> what it changes is that
  the mutex and the wait primitive of the queue are destroyed.
\<close>

theorem FlowQueueDestroy_frame:
  "flows (FlowQueueDestroy tile q s) = flows s \<and>
   trace (FlowQueueDestroy tile q s) = trace s \<and>
   (\<forall>q'. top_q (queues (FlowQueueDestroy tile q s) q') = top_q (queues s q') \<and>
         bot_q (queues (FlowQueueDestroy tile q s) q') = bot_q (queues s q') \<and>
         len (queues (FlowQueueDestroy tile q s) q') = len (queues s q') \<and>
         dbg_maxlen (queues (FlowQueueDestroy tile q s) q') = dbg_maxlen (queues s q')) \<and>
   mutex_q (queues (FlowQueueDestroy False q s) q) = Destroyed \<and>
   cond_q (queues (FlowQueueDestroy False q s) q) = Destroyed \<and>
   FlowQueueDestroy True q s = s"
  by (simp add: FlowQueueDestroy_def Let_def)

section \<open>The ERF timestamp\<close>

lemma erf_fraction_bound: "unat ((t :: 64 word) AND 0xffffffff) < 2 ^ 32"
proof -
  have "t AND 0xffffffff \<le> 0xffffffff" by (rule word_and_le1)
  then have "unat (t AND 0xffffffff) \<le> unat (0xffffffff :: 64 word)"
    by (simp only: word_le_nat_alt)
  then show ?thesis by simp
qed

lemma erf_usec_before_carry:
  "unat (drop_bit 32 (((t :: 64 word) AND 0xffffffff) * 1000000 + 0x80000000)) \<le> 1000000"
proof -
  let ?f = "t AND 0xffffffff"
  have f: "unat ?f < 2 ^ 32" by (rule erf_fraction_bound)
  have m: "unat (?f * 1000000) = unat ?f * 1000000"
    using f by (simp add: unat_word_ariths)
  have a: "unat (?f * 1000000 + 0x80000000) = unat ?f * 1000000 + 2147483648"
    using f m by (simp add: unat_word_ariths)
  have "unat (drop_bit 32 (?f * 1000000 + 0x80000000))
        = (unat ?f * 1000000 + 2147483648) div 2 ^ 32"
    using a by (simp add: unat_drop_bit_eq drop_bit_eq_div unat_div)
  then show ?thesis using f by simp
qed

text \<open>
  Claim C10. For every 64-bit ERF timestamp the microseconds field that the conversion
  stores is at least 0 and below 1000000.
\<close>

theorem erf_timeval_usec_range:
  "0 \<le> tv_usec (erf_timeval t) \<and> tv_usec (erf_timeval t) < 1000000"
proof -
  define u where "u = uint (drop_bit 32 ((t AND 0xffffffff) * 1000000 + 0x80000000))"
  define sec where "sec = uint (drop_bit 32 t)"
  have "unat (drop_bit 32 ((t AND 0xffffffff) * 1000000 + 0x80000000)) \<le> 1000000"
    by (rule erf_usec_before_carry)
  then have hi: "u \<le> 1000000" unfolding u_def by (simp only: uint_nat)
  have lo: "0 \<le> u" unfolding u_def by (rule uint_ge_0)
  have eq: "erf_timeval t =
        (if u \<ge> 1000000 then \<lparr>tv_sec = sec + 1, tv_usec = u - 1000000\<rparr>
         else \<lparr>tv_sec = sec, tv_usec = u\<rparr>)"
    unfolding erf_timeval_def Let_def u_def sec_def by (rule refl)
  show ?thesis
  proof (cases "u \<ge> 1000000")
    case True
    then have "u = 1000000" using hi by simp
    then show ?thesis unfolding eq by simp
  next
    case False
    then show ?thesis unfolding eq using lo by simp
  qed
qed

section \<open>Chains and heap updates\<close>

lemma chain_append:
  "chain fld h p (xs @ ys) e = (\<exists>m. chain fld h p xs m \<and> chain fld h m ys e)"
  by (induction xs arbitrary: p) auto

lemma chain_snoc:
  "chain fld h p (xs @ [x]) e = (chain fld h p xs (Some x) \<and> fld (h x) = e)"
  by (induction xs arbitrary: p) auto

lemma chain_frame:
  "(\<And>x. x \<in> set xs \<Longrightarrow> fld (h' x) = fld (h x)) \<Longrightarrow> chain fld h' p xs e = chain fld h p xs e"
  by (induction xs arbitrary: p) auto

lemma chain_length_unique:
  "chain fld h p xs None \<Longrightarrow> chain fld h p ys None \<Longrightarrow> xs = ys"
proof (induction xs arbitrary: p ys)
  case Nil
  then show ?case by (cases ys) auto
next
  case (Cons x xs)
  then show ?case by (cases ys) auto
qed

lemma chain_distinct:
  "chain fld h p xs None \<Longrightarrow> distinct xs"
proof (induction xs arbitrary: p)
  case Nil
  then show ?case by simp
next
  case (Cons x xs)
  have tl: "chain fld h (fld (h x)) xs None" using Cons.prems by simp
  have "x \<notin> set xs"
  proof
    assume "x \<in> set xs"
    then obtain as bs where xs: "xs = as @ x # bs" by (auto simp: in_set_conv_decomp)
    with tl have "chain fld h (fld (h x)) bs None" by (auto simp: chain_append)
    with tl have "xs = bs" by (rule chain_length_unique)
    with xs show False by simp
  qed
  with Cons.IH [OF tl] show ?case by simp
qed

lemma dll_distinct: "dll h t b xs \<Longrightarrow> distinct xs"
  by (auto simp: dll_def dest: chain_distinct)


lemma chain_None:
  "chain fld h None xs e = (xs = [] \<and> e = None)"
  by (cases xs) auto

lemma chain_Some_notin:
  "x \<notin> set xs \<Longrightarrow> chain fld h (Some x) xs e = (xs = [] \<and> e = Some x)"
  by (cases xs) auto

lemmas chain_simps = chain_append chain_snoc chain_None chain_Some_notin

lemma chain_upd_notin:
  "u \<notin> set xs \<Longrightarrow> chain fld (h(u := v)) p xs e = chain fld h p xs e"
  by (rule chain_frame) auto

lemma chain_upd_same_field:
  "fld v = fld (h u) \<Longrightarrow> chain fld (h(u := v)) p xs e = chain fld h p xs e"
  by (rule chain_frame) auto

lemmas upd_defs = set_lnext_def set_lprev_def set_top_def set_bot_def set_len_def
  SCMutexLock_def SCMutexUnlock_def dbg_perf_update_def

lemma requeue_remove_len: "len (queues (requeue_remove f a s) a) = len (queues s a) - 1"
  by (simp add: requeue_remove_def Let_def upd_defs split: option.splits)

lemma requeue_remove_links:
  "lnext (flows (requeue_remove f a s) f) = None \<and> lprev (flows (requeue_remove f a s) f) = None"
  by (simp add: requeue_remove_def Let_def upd_defs split: option.splits)

lemma requeue_remove_other_queue:
  "q \<noteq> a \<Longrightarrow> queues (requeue_remove f a s) q = queues s q"
  by (simp add: requeue_remove_def Let_def upd_defs split: option.splits)

lemma requeue_remove_trace: "trace (requeue_remove f a s) = trace s"
  by (simp add: requeue_remove_def Let_def upd_defs split: option.splits)

lemma requeue_remove_list:
  assumes "queue_list s a (xs @ f # ys)"
  shows "queue_list (requeue_remove f a s) a (xs @ ys)"
proof -
  have d: "distinct (xs @ f # ys)" using assms dll_distinct unfolding queue_list_def by blast
  show ?thesis
  proof (cases xs rule: rev_cases)
    case Nil
    show ?thesis
    proof (cases ys)
      case Nil
      with \<open>xs = []\<close> assms show ?thesis
        by (auto simp: queue_list_def dll_def requeue_remove_def Let_def upd_defs)
    next
      case (Cons n ys')
      with \<open>xs = []\<close> assms d show ?thesis
        by (auto simp: queue_list_def dll_def requeue_remove_def Let_def upd_defs
            chain_simps chain_upd_notin chain_upd_same_field)
    qed
  next
    case (snoc xs' p)
    show ?thesis
    proof (cases ys)
      case Nil
      with snoc assms d show ?thesis
        by (auto simp: queue_list_def dll_def requeue_remove_def Let_def upd_defs
            chain_simps chain_upd_notin chain_upd_same_field)
    next
      case (Cons n ys')
      with snoc assms d show ?thesis
        by (auto simp: queue_list_def dll_def requeue_remove_def Let_def upd_defs
            chain_simps chain_upd_notin chain_upd_same_field)
    qed
  qed
qed


lemma requeue_remove_flows_frame:
  assumes "queue_list s a (xs @ f # ys)" and "x \<notin> set (xs @ f # ys)"
  shows "flows (requeue_remove f a s) x = flows s x"
proof (cases xs rule: rev_cases)
  case Nil
  show ?thesis
  proof (cases ys)
    case Nil
    with \<open>xs = []\<close> assms show ?thesis
      by (auto simp: queue_list_def dll_def requeue_remove_def Let_def upd_defs)
  next
    case (Cons n ys')
    with \<open>xs = []\<close> assms show ?thesis
      by (auto simp: queue_list_def dll_def requeue_remove_def Let_def upd_defs
          chain_simps)
  qed
next
  case (snoc xs' p)
  show ?thesis
  proof (cases ys)
    case Nil
    with snoc assms show ?thesis
      by (auto simp: queue_list_def dll_def requeue_remove_def Let_def upd_defs
          chain_simps)
  next
    case (Cons n ys')
    with snoc assms show ?thesis
      by (auto simp: queue_list_def dll_def requeue_remove_def Let_def upd_defs
          chain_simps)
  qed
qed

lemma requeue_append_len:
  "len (queues (requeue_append dbg f d s) d) = len (queues s d) + 1"
  by (simp add: requeue_append_def Let_def upd_defs split: option.splits)

lemma requeue_append_other_queue:
  "q \<noteq> d \<Longrightarrow> queues (requeue_append dbg f d s) q = queues s q"
  by (simp add: requeue_append_def Let_def upd_defs split: option.splits)

lemma requeue_append_trace: "trace (requeue_append dbg f d s) = trace s"
  by (simp add: requeue_append_def Let_def upd_defs split: option.splits)

lemma requeue_append_list:
  assumes "queue_list s d zs" and "f \<notin> set zs"
  shows "queue_list (requeue_append dbg f d s) d (zs @ [f])"
proof (cases zs rule: rev_cases)
  case Nil
  with assms show ?thesis
    by (auto simp: queue_list_def dll_def requeue_append_def Let_def upd_defs)
next
  case (snoc zs' b)
  have d: "distinct zs" using assms dll_distinct unfolding queue_list_def by blast
  from snoc assms d show ?thesis
    by (auto simp: queue_list_def dll_def requeue_append_def Let_def upd_defs
          chain_simps chain_upd_notin chain_upd_same_field)
qed

lemma requeue_append_flows_frame:
  assumes "queue_list s d zs" and "x \<notin> set zs" and "x \<noteq> f"
  shows "flows (requeue_append dbg f d s) x = flows s x"
proof (cases zs rule: rev_cases)
  case Nil
  with assms show ?thesis
    by (auto simp: queue_list_def dll_def requeue_append_def Let_def upd_defs)
next
  case (snoc zs' b)
  with assms show ?thesis
    by (auto simp: queue_list_def dll_def requeue_append_def Let_def upd_defs
          chain_simps)
qed

text \<open>A queue whose records and header are untouched still holds its list.\<close>

lemma queue_list_frame:
  assumes "queue_list s q xs"
    and "\<And>x. x \<in> set xs \<Longrightarrow> flows s' x = flows s x"
    and "queues s' q' = queues s q"
  shows "queue_list s' q' xs"
proof -
  have "chain lnext (flows s') (top_q (queues s q)) xs None = chain lnext (flows s) (top_q (queues s q)) xs None"
    by (rule chain_frame) (simp add: assms(2))
  moreover have "chain lprev (flows s') (bot_q (queues s q)) (rev xs) None = chain lprev (flows s) (bot_q (queues s q)) (rev xs) None"
    by (rule chain_frame) (simp add: assms(2))
  ultimately show ?thesis using assms(1,3) by (simp add: queue_list_def dll_def)
qed

section \<open>Insert and poll-remove on the list\<close>

lemma FlowEnqueue_len: "len (queues (FlowEnqueue dbg q f s) q) = len (queues s q) + 1"
  by (simp add: FlowEnqueue_def Let_def upd_defs split: option.splits)

lemma FlowEnqueue_other_queue: "q' \<noteq> q \<Longrightarrow> queues (FlowEnqueue dbg q f s) q' = queues s q'"
  by (simp add: FlowEnqueue_def Let_def upd_defs split: option.splits)

lemma FlowEnqueue_trace: "trace (FlowEnqueue dbg q f s) = trace s"
  by (simp add: FlowEnqueue_def Let_def upd_defs split: option.splits)

lemma FlowEnqueue_list:
  assumes "queue_list s q xs" and "f \<notin> set xs"
    and "lnext (flows s f) = None" and "lprev (flows s f) = None"
  shows "queue_list (FlowEnqueue dbg q f s) q (f # xs)"
proof (cases xs)
  case Nil
  with assms show ?thesis
    by (auto simp: queue_list_def dll_def FlowEnqueue_def Let_def upd_defs)
next
  case (Cons t xs')
  have d: "distinct xs" using assms dll_distinct unfolding queue_list_def by blast
  from Cons assms d show ?thesis
    by (auto simp: queue_list_def dll_def FlowEnqueue_def Let_def upd_defs
          chain_simps chain_upd_notin chain_upd_same_field)
qed

lemma FlowEnqueue_flows_frame:
  assumes "queue_list s q xs" and "x \<notin> set xs" and "x \<noteq> f"
  shows "flows (FlowEnqueue dbg q f s) x = flows s x"
proof (cases xs)
  case Nil
  with assms show ?thesis
    by (auto simp: queue_list_def dll_def FlowEnqueue_def Let_def upd_defs)
next
  case (Cons t xs')
  with assms show ?thesis
    by (auto simp: queue_list_def dll_def FlowEnqueue_def Let_def upd_defs)
qed

lemma FlowDequeue_empty:
  "bot_q (queues s q) = None \<Longrightarrow>
   FlowDequeue q s = (None, s\<lparr>trace := trace s @ [MutexLock q, MutexUnlock q]\<rparr>)"
  by (simp add: FlowDequeue_def Let_def upd_defs)

lemma FlowDequeue_nonempty:
  assumes "bot_q (queues s q) = Some b"
  shows "fst (FlowDequeue q s) = Some b"
    and "lnext (flows (snd (FlowDequeue q s)) b) = None"
    and "lprev (flows (snd (FlowDequeue q s)) b) = None"
    and "len (queues (snd (FlowDequeue q s)) q) = len (queues s q) - 1"
    and "trace (snd (FlowDequeue q s)) = trace s @ [MutexLock q, MutexUnlock q]"
  using assms by (simp_all add: FlowDequeue_def Let_def upd_defs split: option.splits)

lemma FlowDequeue_other_queue:
  "q' \<noteq> q \<Longrightarrow> queues (snd (FlowDequeue q s)) q' = queues s q'"
  by (simp add: FlowDequeue_def Let_def upd_defs split: option.splits)

lemma FlowDequeue_list:
  assumes "queue_list s q (xs @ [b])"
  shows "queue_list (snd (FlowDequeue q s)) q xs"
proof -
  have d: "distinct (xs @ [b])" using assms dll_distinct unfolding queue_list_def by blast
  show ?thesis
  proof (cases xs rule: rev_cases)
    case Nil
    with assms show ?thesis
      by (auto simp: queue_list_def dll_def FlowDequeue_def Let_def upd_defs)
  next
    case (snoc xs' p)
    with assms d show ?thesis
      by (auto simp: queue_list_def dll_def FlowDequeue_def Let_def upd_defs
            chain_simps chain_upd_notin chain_upd_same_field)
  qed
qed

lemma queue_list_bot:
  "queue_list s q (xs @ [b]) \<Longrightarrow> bot_q (queues s q) = Some b"
  by (simp add: queue_list_def dll_def)

lemma queue_list_empty:
  "queue_list s q [] = (top_q (queues s q) = None \<and> bot_q (queues s q) = None)"
  by (simp add: queue_list_def dll_def)

lemma FlowDequeue_flows_frame:
  assumes "queue_list s q xs" and "x \<notin> set xs"
  shows "flows (snd (FlowDequeue q s)) x = flows s x"
proof (cases xs rule: rev_cases)
  case Nil
  with assms show ?thesis
    by (auto simp: queue_list_def dll_def FlowDequeue_def Let_def upd_defs)
next
  case (snoc xs' b)
  show ?thesis
  proof (cases xs' rule: rev_cases)
    case Nil
    with snoc assms show ?thesis
      by (auto simp: queue_list_def dll_def FlowDequeue_def Let_def upd_defs)
  next
    case (snoc xs'' p)
    with \<open>xs = xs' @ [b]\<close> assms show ?thesis
      by (auto simp: queue_list_def dll_def FlowDequeue_def Let_def upd_defs chain_simps)
  qed
qed

section \<open>The invariant under insert and poll-remove\<close>

lemma three_state_list: "queue_inv three_state 0 [3, 2, 1]"
  by (simp add: three_state_def blank_state_def zeroed_queue_def queue_inv_def queue_list_def dll_def
      FlowEnqueue_def Let_def upd_defs)

lemma queue_inv_frame:
  assumes "queue_inv s q xs"
    and "\<And>x. x \<in> set xs \<Longrightarrow> flows s' x = flows s x"
    and "queues s' q = queues s q"
  shows "queue_inv s' q xs"
  using assms queue_list_frame [of s q xs s' q] by (simp add: queue_inv_def)

lemma queue_inv_empty:
  "queue_inv s q [] = (top_q (queues s q) = None \<and> bot_q (queues s q) = None \<and> len (queues s q) = 0)"
  by (auto simp: queue_inv_def queue_list_empty)

lemma FlowEnqueue_inv:
  assumes "queue_inv s q xs" and "f \<notin> set xs"
    and "lnext (flows s f) = None" and "lprev (flows s f) = None"
  shows "queue_inv (FlowEnqueue dbg q f s) q (f # xs)"
  using assms FlowEnqueue_list [of s q xs f dbg] by (simp add: queue_inv_def FlowEnqueue_len)

lemma FlowDequeue_inv:
  assumes "queue_inv s q (xs @ [b])"
  shows "queue_inv (snd (FlowDequeue q s)) q xs"
  using assms FlowDequeue_list [of s q xs b] FlowDequeue_nonempty(4) [of s q b] queue_list_bot [of s q xs b]
  by (simp add: queue_inv_def)

lemma enqueue_all_inv:
  "queue_inv s q xs \<Longrightarrow> distinct rs \<Longrightarrow> set rs \<inter> set xs = {} \<Longrightarrow>
   (\<forall>r \<in> set rs. lnext (flows s r) = None \<and> lprev (flows s r) = None) \<Longrightarrow>
   queue_inv (enqueue_all dbg q rs s) q (rev rs @ xs)"
proof (induction rs arbitrary: s xs)
  case Nil
  then show ?case by simp
next
  case (Cons r rs)
  let ?s1 = "FlowEnqueue dbg q r s"
  have ql: "queue_list s q xs" using Cons.prems(1) by (simp add: queue_inv_def)
  have 1: "queue_inv ?s1 q (r # xs)"
    using Cons.prems by (intro FlowEnqueue_inv) auto
  have 2: "\<forall>x \<in> set rs. lnext (flows ?s1 x) = None \<and> lprev (flows ?s1 x) = None"
  proof
    fix x assume x: "x \<in> set rs"
    then have "x \<notin> set xs" "x \<noteq> r" using Cons.prems by auto
    then have "flows ?s1 x = flows s x" using ql by (intro FlowEnqueue_flows_frame)
    then show "lnext (flows ?s1 x) = None \<and> lprev (flows ?s1 x) = None"
      using Cons.prems(4) x by simp
  qed
  have "queue_inv (enqueue_all dbg q rs ?s1) q (rev rs @ r # xs)"
    using 1 2 Cons.prems by (intro Cons.IH) auto
  then show ?case by simp
qed

lemma dequeue_n_inv:
  "queue_inv s q xs \<Longrightarrow>
   fst (dequeue_n q (length xs) s) = map Some (rev xs) \<and>
   queue_inv (snd (dequeue_n q (length xs) s)) q []"
proof (induction xs arbitrary: s rule: rev_induct)
  case Nil
  then show ?case by simp
next
  case (snoc b xs)
  have b: "bot_q (queues s q) = Some b"
    using snoc.prems queue_list_bot [of s q xs b] by (simp add: queue_inv_def)
  have r: "fst (FlowDequeue q s) = Some b" using b by (rule FlowDequeue_nonempty(1))
  have i: "queue_inv (snd (FlowDequeue q s)) q xs" using snoc.prems by (rule FlowDequeue_inv)
  from snoc.IH [OF i] r show ?case
    by (simp add: split_beta)
qed

section \<open>The FIFO law\<close>

text \<open>
  Claim C2. Records \<open>rs\<close>, pairwise different and linked nowhere, are inserted in this
  order into a queue that is empty. Then as many calls of \<open>FlowDequeue\<close> as there are
  records return them in the order of insertion, oldest first, and leave the queue with
  \<open>top\<close> and \<open>bot\<close> unset and length 0.
\<close>

theorem FlowQueue_fifo_law:
  assumes "top_q (queues s q) = None" and "bot_q (queues s q) = None" and "len (queues s q) = 0"
    and "distinct rs"
    and "\<forall>r \<in> set rs. lnext (flows s r) = None \<and> lprev (flows s r) = None"
  shows "fst (dequeue_n q (length rs) (enqueue_all dbg q rs s)) = map Some rs \<and>
         top_q (queues (snd (dequeue_n q (length rs) (enqueue_all dbg q rs s))) q) = None \<and>
         bot_q (queues (snd (dequeue_n q (length rs) (enqueue_all dbg q rs s))) q) = None \<and>
         len (queues (snd (dequeue_n q (length rs) (enqueue_all dbg q rs s))) q) = 0"
proof -
  have e: "queue_inv s q []" using assms(1-3) by (simp add: queue_inv_empty)
  have "queue_inv (enqueue_all dbg q rs s) q (rev rs @ [])"
    using e assms(4,5) by (intro enqueue_all_inv) auto
  then have i: "queue_inv (enqueue_all dbg q rs s) q (rev rs)" by simp
  from dequeue_n_inv [OF i] show ?thesis by (simp add: queue_inv_empty)
qed

theorem FlowQueue_fifo_law_witness:
  "top_q (queues blank_state 0) = None \<and> bot_q (queues blank_state 0) = None \<and>
   len (queues blank_state 0) = 0 \<and> distinct [1, 2, 3 :: nat] \<and>
   lnext (flows blank_state 1) = None \<and> lprev (flows blank_state 1) = None \<and>
   lnext (flows blank_state 2) = None \<and> lprev (flows blank_state 2) = None \<and>
   lnext (flows blank_state 3) = None \<and> lprev (flows blank_state 3) = None \<and>
   fst (dequeue_n 0 (length [1, 2, 3 :: nat]) (enqueue_all False 0 [1, 2, 3] blank_state))
     = map Some [1, 2, 3] \<and>
   top_q (queues (snd (dequeue_n 0 (length [1, 2, 3 :: nat])
                        (enqueue_all False 0 [1, 2, 3] blank_state))) 0) = None \<and>
   bot_q (queues (snd (dequeue_n 0 (length [1, 2, 3 :: nat])
                        (enqueue_all False 0 [1, 2, 3] blank_state))) 0) = None \<and>
   len (queues (snd (dequeue_n 0 (length [1, 2, 3 :: nat])
                        (enqueue_all False 0 [1, 2, 3] blank_state))) 0) = 0"
proof -
  have h1: "top_q (queues blank_state 0) = None" by (simp add: blank_state_def zeroed_queue_def)
  have h2: "bot_q (queues blank_state 0) = None" by (simp add: blank_state_def zeroed_queue_def)
  have h3: "len (queues blank_state 0) = 0" by (simp add: blank_state_def zeroed_queue_def)
  have h4: "distinct [1, 2, 3 :: nat]" by simp
  have h5: "\<forall>r \<in> set [1, 2, 3 :: nat].
              lnext (flows blank_state r) = None \<and> lprev (flows blank_state r) = None"
    by (simp add: blank_state_def)
  have h6: "lnext (flows blank_state 1) = None \<and> lprev (flows blank_state 1) = None \<and>
   lnext (flows blank_state 2) = None \<and> lprev (flows blank_state 2) = None \<and>
   lnext (flows blank_state 3) = None \<and> lprev (flows blank_state 3) = None"
    by (simp add: blank_state_def)
  from FlowQueue_fifo_law [OF h1 h2 h3 h4 h5, of False] h1 h2 h3 h4 h6 show ?thesis by blast
qed

section \<open>The invariant under transfer\<close>

lemma queue_inv_cong:
  "flows s' = flows s \<Longrightarrow> queues s' = queues s \<Longrightarrow> queue_inv s' q xs = queue_inv s q xs"
  by (simp add: queue_inv_def queue_list_def)

lemma queue_inv_lock [simp]: "queue_inv (SCMutexLock m s) q xs = queue_inv s q xs"
  by (rule queue_inv_cong) (simp_all add: SCMutexLock_def)

lemma queue_inv_unlock [simp]: "queue_inv (SCMutexUnlock m s) q xs = queue_inv s q xs"
  by (rule queue_inv_cong) (simp_all add: SCMutexUnlock_def)

lemma mem_lock [simp]:
  "flows (SCMutexLock m s) = flows s" "queues (SCMutexLock m s) = queues s"
  "flows (SCMutexUnlock m s) = flows s" "queues (SCMutexUnlock m s) = queues s"
  by (simp_all add: SCMutexLock_def SCMutexUnlock_def)

lemma queue_inv_list: "queue_inv s q xs \<Longrightarrow> queue_list s q xs"
  by (simp add: queue_inv_def)

lemma queue_inv_distinct: "queue_inv s q xs \<Longrightarrow> distinct xs"
  using dll_distinct by (auto simp: queue_inv_def queue_list_def)

lemma requeue_remove_inv:
  assumes "queue_inv s a (xs @ f # ys)"
  shows "queue_inv (requeue_remove f a s) a (xs @ ys)"
  using assms requeue_remove_list [of s a xs f ys]
  by (simp add: queue_inv_def requeue_remove_len)

lemma requeue_remove_inv_other:
  assumes "queue_inv s a (xs @ f # ys)" and "queue_inv s c ws" and "c \<noteq> a"
    and "set ws \<inter> set (xs @ f # ys) = {}"
  shows "queue_inv (requeue_remove f a s) c ws"
proof (rule queue_inv_frame [OF assms(2)])
  fix x assume "x \<in> set ws"
  then have "x \<notin> set (xs @ f # ys)" using assms(4) by blast
  then show "flows (requeue_remove f a s) x = flows s x"
    using queue_inv_list [OF assms(1)] by (intro requeue_remove_flows_frame)
next
  show "queues (requeue_remove f a s) c = queues s c"
    using assms(3) by (rule requeue_remove_other_queue)
qed

lemma requeue_append_inv:
  assumes "queue_inv s d zs" and "f \<notin> set zs"
  shows "queue_inv (requeue_append dbg f d s) d (zs @ [f])"
  using assms requeue_append_list [of s d zs f dbg]
  by (simp add: queue_inv_def requeue_append_len)

lemma requeue_append_inv_other:
  assumes "queue_inv s d zs" and "queue_inv s c ws" and "c \<noteq> d"
    and "set ws \<inter> set zs = {}" and "f \<notin> set ws"
  shows "queue_inv (requeue_append dbg f d s) c ws"
proof (rule queue_inv_frame [OF assms(2)])
  fix x assume x: "x \<in> set ws"
  then have "x \<notin> set zs" using assms(4) by blast
  moreover have "x \<noteq> f" using x assms(5) by blast
  ultimately show "flows (requeue_append dbg f d s) x = flows s x"
    using queue_inv_list [OF assms(1)] by (intro requeue_append_flows_frame)
next
  show "queues (requeue_append dbg f d s) c = queues s c"
    using assms(3) by (rule requeue_append_other_queue)
qed

text \<open>The two halves of \<open>FlowRequeue\<close>, with their locking.\<close>

lemma requeue_src_inv:
  assumes "queue_inv s a (xs @ f # ys)"
  shows "queue_inv (requeue_src f (Some a) d need s) a (xs @ ys)"
proof -
  let ?t1 = "if need = 1 then SCMutexLock a s else s"
  have "queue_inv ?t1 a (xs @ f # ys)" using assms by simp
  then have "queue_inv (requeue_remove f a ?t1) a (xs @ ys)" by (rule requeue_remove_inv)
  then show ?thesis by (cases "need = 1") (auto simp: requeue_src_def Let_def)
qed

lemma requeue_src_inv_other:
  assumes "queue_inv s a (xs @ f # ys)" and "queue_inv s c ws" and "c \<noteq> a"
    and "set ws \<inter> set (xs @ f # ys) = {}"
  shows "queue_inv (requeue_src f (Some a) d need s) c ws"
proof -
  let ?t1 = "if need = 1 then SCMutexLock a s else s"
  have 1: "queue_inv ?t1 a (xs @ f # ys)" using assms(1) by simp
  have 2: "queue_inv ?t1 c ws" using assms(2) by simp
  have "queue_inv (requeue_remove f a ?t1) c ws"
    using 1 2 assms(3,4) by (rule requeue_remove_inv_other)
  then show ?thesis by (cases "need = 1") (auto simp: requeue_src_def Let_def)
qed

lemma requeue_dst_inv:
  assumes "queue_inv s d zs" and "f \<notin> set zs"
  shows "queue_inv (requeue_dst dbg f srcq d s) d (zs @ [f])"
proof -
  let ?s1 = "if srcq \<noteq> Some d then SCMutexLock d s else s"
  have "queue_inv ?s1 d zs" using assms(1) by simp
  then have "queue_inv (requeue_append dbg f d ?s1) d (zs @ [f])"
    using assms(2) by (rule requeue_append_inv)
  then show ?thesis by (cases "srcq = Some d") (auto simp: requeue_dst_def Let_def)
qed

lemma requeue_dst_inv_other:
  assumes "queue_inv s d zs" and "queue_inv s c ws" and "c \<noteq> d"
    and "set ws \<inter> set zs = {}" and "f \<notin> set ws"
  shows "queue_inv (requeue_dst dbg f srcq d s) c ws"
proof -
  let ?s1 = "if srcq \<noteq> Some d then SCMutexLock d s else s"
  have 1: "queue_inv ?s1 d zs" using assms(1) by simp
  have 2: "queue_inv ?s1 c ws" using assms(2) by simp
  have "queue_inv (requeue_append dbg f d ?s1) c ws"
    using 1 2 assms(3,4,5) by (rule requeue_append_inv_other)
  then show ?thesis by (cases "srcq = Some d") (auto simp: requeue_dst_def Let_def)
qed

text \<open>Transfer between two different queues.\<close>

lemma FlowRequeue_inv_distinct:
  assumes "a \<noteq> d" and "queue_inv s a (xs @ f # ys)" and "queue_inv s d zs"
    and "set zs \<inter> set (xs @ f # ys) = {}"
  shows "queue_inv (FlowRequeue dbg f (Some a) d need s) a (xs @ ys) \<and>
         queue_inv (FlowRequeue dbg f (Some a) d need s) d (zs @ [f])"
proof -
  let ?u = "requeue_src f (Some a) d need s"
  have dist: "distinct (xs @ f # ys)" using assms(2) by (rule queue_inv_distinct)
  have ua: "queue_inv ?u a (xs @ ys)" using assms(2) by (rule requeue_src_inv)
  have ud: "queue_inv ?u d zs"
    using assms(2,3) assms(1) assms(4) by (intro requeue_src_inv_other) auto
  have fz: "f \<notin> set zs" using assms(4) by auto
  have fa: "f \<notin> set (xs @ ys)" using dist by auto
  have za: "set (xs @ ys) \<inter> set zs = {}" using assms(4) by auto
  have 1: "queue_inv (requeue_dst dbg f (Some a) d ?u) d (zs @ [f])"
    using ud fz by (rule requeue_dst_inv)
  have 2: "queue_inv (requeue_dst dbg f (Some a) d ?u) a (xs @ ys)"
    using ud ua assms(1) za fa by (rule requeue_dst_inv_other)
  from 1 2 show ?thesis by (simp add: FlowRequeue_def)
qed

text \<open>Transfer within one queue: the record moves to \<open>bot\<close>.\<close>

lemma FlowRequeue_inv_same:
  assumes "queue_inv s a (xs @ f # ys)"
  shows "queue_inv (FlowRequeue dbg f (Some a) a need s) a (xs @ ys @ [f])"
proof -
  have dist: "distinct (xs @ f # ys)" using assms by (rule queue_inv_distinct)
  have ua: "queue_inv (requeue_src f (Some a) a need s) a (xs @ ys)"
    using assms by (rule requeue_src_inv)
  have "f \<notin> set (xs @ ys)" using dist by auto
  with ua have "queue_inv (requeue_dst dbg f (Some a) a (requeue_src f (Some a) a need s)) a
                  ((xs @ ys) @ [f])"
    by (rule requeue_dst_inv)
  then show ?thesis by (simp add: FlowRequeue_def)
qed

text \<open>First insertion: no source queue.\<close>

lemma FlowRequeue_inv_first:
  assumes "queue_inv s d zs" and "f \<notin> set zs"
  shows "queue_inv (FlowRequeue dbg f None d need s) d (zs @ [f])"
  using requeue_dst_inv [OF assms, of dbg None]
  by (simp add: FlowRequeue_def requeue_src_def)

text \<open>A queue that takes no part in the transfer.\<close>

lemma FlowRequeue_inv_other:
  assumes "queue_inv s a (xs @ f # ys)" and "queue_inv s d zs"
    and "a = d \<or> set zs \<inter> set (xs @ f # ys) = {}"
    and "queue_inv s c ws" and "c \<noteq> a" and "c \<noteq> d"
    and "set ws \<inter> set (xs @ f # ys) = {}" and "set ws \<inter> set zs = {}"
  shows "queue_inv (FlowRequeue dbg f (Some a) d need s) c ws"
proof -
  let ?u = "requeue_src f (Some a) d need s"
  have uc: "queue_inv ?u c ws"
    using assms(1,4,5,7) by (rule requeue_src_inv_other)
  have fw: "f \<notin> set ws" using assms(7) by auto
  have "\<exists>zs'. queue_inv ?u d zs' \<and> set ws \<inter> set zs' = {}"
  proof (cases "a = d")
    case True
    have "queue_inv ?u a (xs @ ys)" using assms(1) by (rule requeue_src_inv)
    moreover have "set ws \<inter> set (xs @ ys) = {}" using assms(7) by auto
    ultimately show ?thesis using True by blast
  next
    case False
    then have "set zs \<inter> set (xs @ f # ys) = {}" using assms(3) by simp
    with assms(1,2) False have "queue_inv ?u d zs"
      by (intro requeue_src_inv_other) auto
    then show ?thesis using assms(8) by blast
  qed
  then obtain zs' where "queue_inv ?u d zs'" and "set ws \<inter> set zs' = {}" by blast
  then have "queue_inv (requeue_dst dbg f (Some a) d ?u) c ws"
    using uc assms(6) fw by (intro requeue_dst_inv_other) auto
  then show ?thesis by (simp add: FlowRequeue_def)
qed

lemma FlowRequeue_inv_first_other:
  assumes "queue_inv s d zs" and "queue_inv s c ws" and "c \<noteq> d"
    and "set ws \<inter> set zs = {}" and "f \<notin> set ws"
  shows "queue_inv (FlowRequeue dbg f None d need s) c ws"
  using requeue_dst_inv_other [OF assms, of dbg None]
  by (simp add: FlowRequeue_def requeue_src_def)


section \<open>Single fields after a transfer\<close>

lemma queue_list_top: "queue_list s q (x # xs) \<Longrightarrow> top_q (queues s q) = Some x"
  by (simp add: queue_list_def dll_def)

lemma queue_list_hd:
  "queue_list s q xs \<Longrightarrow> xs \<noteq> [] \<Longrightarrow> top_q (queues s q) = Some (hd xs)"
  by (cases xs) (simp_all add: queue_list_def dll_def)

lemma queue_list_last:
  "queue_list s q xs \<Longrightarrow> xs \<noteq> [] \<Longrightarrow> bot_q (queues s q) = Some (last xs)"
  by (cases xs rule: rev_cases) (simp_all add: queue_list_def dll_def)

lemma queue_list_links:
  assumes "queue_list s q (xs @ p # n # ys)"
  shows "lnext (flows s p) = Some n \<and> lprev (flows s n) = Some p"
  using assms by (auto simp: queue_list_def dll_def chain_append)

lemma requeue_src_len:
  "len (queues (requeue_src f (Some a) d need s) a) = len (queues s a) - 1"
  by (simp add: requeue_src_def Let_def requeue_remove_len)

lemma requeue_src_links:
  "lnext (flows (requeue_src f (Some a) d need s) f) = None \<and>
   lprev (flows (requeue_src f (Some a) d need s) f) = None"
  by (simp add: requeue_src_def Let_def requeue_remove_links)

lemma requeue_src_splice:
  assumes "queue_inv s a (xs' @ p # f # n # ys')"
  shows "lnext (flows (requeue_src f (Some a) d need s) p) = Some n \<and>
         lprev (flows (requeue_src f (Some a) d need s) n) = Some p \<and>
         top_q (queues (requeue_src f (Some a) d need s) a) = top_q (queues s a) \<and>
         bot_q (queues (requeue_src f (Some a) d need s) a) = bot_q (queues s a)"
proof -
  let ?u = "requeue_src f (Some a) d need s"
  have "queue_inv s a ((xs' @ [p]) @ f # (n # ys'))" using assms by simp
  then have "queue_inv ?u a ((xs' @ [p]) @ (n # ys'))" by (rule requeue_src_inv)
  then have u: "queue_list ?u a (xs' @ p # n # ys')" by (simp add: queue_inv_def)
  have s: "queue_list s a (xs' @ p # f # n # ys')" using assms by (simp add: queue_inv_def)
  have l: "lnext (flows ?u p) = Some n \<and> lprev (flows ?u n) = Some p"
    using u by (rule queue_list_links)
  have t: "top_q (queues ?u a) = top_q (queues s a)"
    using queue_list_hd [OF u] queue_list_hd [OF s] by (simp add: hd_append)
  have b: "bot_q (queues ?u a) = bot_q (queues s a)"
    using queue_list_last [OF u] queue_list_last [OF s] by simp
  from l t b show ?thesis by simp
qed


lemma requeue_dst_len:
  "len (queues (requeue_dst dbg f srcq d s) d) = len (queues s d) + 1"
  by (simp add: requeue_dst_def Let_def requeue_append_len)

lemma requeue_dst_other_queue:
  "q \<noteq> d \<Longrightarrow> queues (requeue_dst dbg f srcq d s) q = queues s q"
  by (simp add: requeue_dst_def Let_def requeue_append_other_queue)

lemma requeue_src_other_queue:
  "q \<noteq> a \<Longrightarrow> queues (requeue_src f (Some a) d need s) q = queues s q"
  by (simp add: requeue_src_def Let_def requeue_remove_other_queue)

lemma requeue_append_record:
  "lnext (flows (requeue_append dbg f d s) f) = None \<and>
   lprev (flows (requeue_append dbg f d s) f) = bot_q (queues s d) \<and>
   bot_q (queues (requeue_append dbg f d s) d) = Some f \<and>
   top_q (queues (requeue_append dbg f d s) d) =
     (if top_q (queues s d) = None then Some f else top_q (queues s d))"
  by (simp add: requeue_append_def Let_def upd_defs split: option.splits)

lemma requeue_dst_record:
  "lnext (flows (requeue_dst dbg f srcq d s) f) = None \<and>
   lprev (flows (requeue_dst dbg f srcq d s) f) = bot_q (queues s d) \<and>
   bot_q (queues (requeue_dst dbg f srcq d s) d) = Some f \<and>
   top_q (queues (requeue_dst dbg f srcq d s) d) =
     (if top_q (queues s d) = None then Some f else top_q (queues s d))"
  using requeue_append_record [of dbg f d "if srcq \<noteq> Some d then SCMutexLock d s else s"]
  by (cases "srcq = Some d") (auto simp: requeue_dst_def Let_def)

lemma FlowRequeue_len_src:
  "a \<noteq> d \<Longrightarrow>
   len (queues (FlowRequeue dbg f (Some a) d need s) a) = len (queues s a) - 1"
  by (simp add: FlowRequeue_def requeue_dst_other_queue requeue_src_len)

lemma FlowRequeue_len_dst:
  "a \<noteq> d \<Longrightarrow>
   len (queues (FlowRequeue dbg f (Some a) d need s) d) = len (queues s d) + 1"
  by (simp add: FlowRequeue_def requeue_dst_len requeue_src_other_queue)

lemma FlowRequeue_len_same:
  "len (queues (FlowRequeue dbg f (Some a) a need s) a) = len (queues s a)"
  by (simp add: FlowRequeue_def requeue_dst_len requeue_src_len)

lemma FlowRequeue_record:
  "a \<noteq> d \<Longrightarrow>
   lnext (flows (FlowRequeue dbg f (Some a) d need s) f) = None \<and>
   lprev (flows (FlowRequeue dbg f (Some a) d need s) f) = bot_q (queues s d) \<and>
   bot_q (queues (FlowRequeue dbg f (Some a) d need s) d) = Some f \<and>
   top_q (queues (FlowRequeue dbg f (Some a) d need s) d) =
     (if top_q (queues s d) = None then Some f else top_q (queues s d))"
  using requeue_dst_record [of dbg f "Some a" d "requeue_src f (Some a) d need s"]
  by (simp add: FlowRequeue_def requeue_src_other_queue)

section \<open>Transfer\<close>

text \<open>
  Claim C1. Record \<open>f\<close> is in queue \<open>a\<close>, between the records \<open>xs\<close> towards \<open>top\<close> and
  \<open>ys\<close> towards \<open>bot\<close> (either may be empty). After the first half of \<open>FlowRequeue\<close> the
  queue holds \<open>xs @ ys\<close>, its length is one less and both links of \<open>f\<close> are \<open>NULL\<close>; when
  \<open>f\<close> had two neighbours they point at each other and \<open>top\<close> and \<open>bot\<close> are as before.
  After the whole call with a different destination \<open>d\<close> that held \<open>zs\<close>, \<open>a\<close> holds
  \<open>xs @ ys\<close> with its length one less, \<open>d\<close> holds \<open>zs @ [f]\<close> with its length one more,
  \<open>f\<close> is the \<open>bot\<close> of \<open>d\<close>, linked behind the old \<open>bot\<close>, and is also its \<open>top\<close> when
  \<open>d\<close> was empty. When the destination is \<open>a\<close> itself, \<open>f\<close> moves to \<open>bot\<close> and the
  length is what it was.
\<close>

theorem FlowRequeue_postcondition:
  assumes "queue_inv s a (xs @ f # ys)"
  shows
    "queue_inv (requeue_src f (Some a) d need s) a (xs @ ys) \<and>
     len (queues (requeue_src f (Some a) d need s) a) = len (queues s a) - 1 \<and>
     lnext (flows (requeue_src f (Some a) d need s) f) = None \<and>
     lprev (flows (requeue_src f (Some a) d need s) f) = None \<and>
     (\<forall>xs' p n ys'. xs = xs' @ [p] \<and> ys = n # ys' \<longrightarrow>
        lnext (flows (requeue_src f (Some a) d need s) p) = Some n \<and>
        lprev (flows (requeue_src f (Some a) d need s) n) = Some p \<and>
        top_q (queues (requeue_src f (Some a) d need s) a) = top_q (queues s a) \<and>
        bot_q (queues (requeue_src f (Some a) d need s) a) = bot_q (queues s a)) \<and>
     (a \<noteq> d \<and> queue_inv s d zs \<and> set zs \<inter> set (xs @ f # ys) = {} \<longrightarrow>
        queue_inv (FlowRequeue dbg f (Some a) d need s) a (xs @ ys) \<and>
        queue_inv (FlowRequeue dbg f (Some a) d need s) d (zs @ [f]) \<and>
        len (queues (FlowRequeue dbg f (Some a) d need s) a) = len (queues s a) - 1 \<and>
        len (queues (FlowRequeue dbg f (Some a) d need s) d) = len (queues s d) + 1 \<and>
        lnext (flows (FlowRequeue dbg f (Some a) d need s) f) = None \<and>
        lprev (flows (FlowRequeue dbg f (Some a) d need s) f) = bot_q (queues s d) \<and>
        bot_q (queues (FlowRequeue dbg f (Some a) d need s) d) = Some f \<and>
        top_q (queues (FlowRequeue dbg f (Some a) d need s) d) =
          (if zs = [] then Some f else top_q (queues s d))) \<and>
     queue_inv (FlowRequeue dbg f (Some a) a need s) a (xs @ ys @ [f]) \<and>
     len (queues (FlowRequeue dbg f (Some a) a need s) a) = len (queues s a)"
proof -
  have 1: "queue_inv (requeue_src f (Some a) d need s) a (xs @ ys)"
    using assms by (rule requeue_src_inv)
  have 2: "\<forall>xs' p n ys'. xs = xs' @ [p] \<and> ys = n # ys' \<longrightarrow>
        lnext (flows (requeue_src f (Some a) d need s) p) = Some n \<and>
        lprev (flows (requeue_src f (Some a) d need s) n) = Some p \<and>
        top_q (queues (requeue_src f (Some a) d need s) a) = top_q (queues s a) \<and>
        bot_q (queues (requeue_src f (Some a) d need s) a) = bot_q (queues s a)"
  proof (intro allI impI)
    fix xs' p n ys' assume "xs = xs' @ [p] \<and> ys = n # ys'"
    then have "queue_inv s a (xs' @ p # f # n # ys')" using assms by simp
    then show "lnext (flows (requeue_src f (Some a) d need s) p) = Some n \<and>
        lprev (flows (requeue_src f (Some a) d need s) n) = Some p \<and>
        top_q (queues (requeue_src f (Some a) d need s) a) = top_q (queues s a) \<and>
        bot_q (queues (requeue_src f (Some a) d need s) a) = bot_q (queues s a)"
      by (rule requeue_src_splice)
  qed
  have 3: "a \<noteq> d \<and> queue_inv s d zs \<and> set zs \<inter> set (xs @ f # ys) = {} \<longrightarrow>
        queue_inv (FlowRequeue dbg f (Some a) d need s) a (xs @ ys) \<and>
        queue_inv (FlowRequeue dbg f (Some a) d need s) d (zs @ [f]) \<and>
        len (queues (FlowRequeue dbg f (Some a) d need s) a) = len (queues s a) - 1 \<and>
        len (queues (FlowRequeue dbg f (Some a) d need s) d) = len (queues s d) + 1 \<and>
        lnext (flows (FlowRequeue dbg f (Some a) d need s) f) = None \<and>
        lprev (flows (FlowRequeue dbg f (Some a) d need s) f) = bot_q (queues s d) \<and>
        bot_q (queues (FlowRequeue dbg f (Some a) d need s) d) = Some f \<and>
        top_q (queues (FlowRequeue dbg f (Some a) d need s) d) =
          (if zs = [] then Some f else top_q (queues s d))"
  proof
    assume h: "a \<noteq> d \<and> queue_inv s d zs \<and> set zs \<inter> set (xs @ f # ys) = {}"
    then have ad: "a \<noteq> d" and dz: "queue_inv s d zs"
      and dj: "set zs \<inter> set (xs @ f # ys) = {}" by simp_all
    have tz: "(top_q (queues s d) = None) = (zs = [])"
      using dz by (cases zs) (simp_all add: queue_inv_def queue_list_def dll_def)
    note i = FlowRequeue_inv_distinct [OF ad assms dz dj, of dbg need]
    note r = FlowRequeue_record [OF ad, of dbg f need s]
    show "queue_inv (FlowRequeue dbg f (Some a) d need s) a (xs @ ys) \<and>
        queue_inv (FlowRequeue dbg f (Some a) d need s) d (zs @ [f]) \<and>
        len (queues (FlowRequeue dbg f (Some a) d need s) a) = len (queues s a) - 1 \<and>
        len (queues (FlowRequeue dbg f (Some a) d need s) d) = len (queues s d) + 1 \<and>
        lnext (flows (FlowRequeue dbg f (Some a) d need s) f) = None \<and>
        lprev (flows (FlowRequeue dbg f (Some a) d need s) f) = bot_q (queues s d) \<and>
        bot_q (queues (FlowRequeue dbg f (Some a) d need s) d) = Some f \<and>
        top_q (queues (FlowRequeue dbg f (Some a) d need s) d) =
          (if zs = [] then Some f else top_q (queues s d))"
      using i r tz FlowRequeue_len_src [OF ad, of dbg f need s]
        FlowRequeue_len_dst [OF ad, of dbg f need s] by simp
  qed
  have 4: "queue_inv (FlowRequeue dbg f (Some a) a need s) a (xs @ ys @ [f])"
    using assms by (rule FlowRequeue_inv_same)
  note 5 = requeue_src_len [of f a d need s]
  note 6 = requeue_src_links [of f a d need s]
  note 7 = FlowRequeue_len_same [of dbg f a need s]
  show ?thesis
    by (intro conjI 1 2 3 4 5 6 [THEN conjunct1] 6 [THEN conjunct2] 7)
qed


lemma three_state_len: "len (queues three_state 0) = 3"
  by (simp add: three_state_def blank_state_def zeroed_queue_def FlowEnqueue_def Let_def upd_defs)

lemma three_state_other: "q \<noteq> 0 \<Longrightarrow> queue_inv three_state q []"
  by (simp add: three_state_def blank_state_def zeroed_queue_def queue_inv_def queue_list_def dll_def
      FlowEnqueue_def Let_def upd_defs)

theorem FlowRequeue_postcondition_witness:
  "queue_inv three_state 0 ([3] @ 2 # [1]) \<and> queue_inv three_state 1 [] \<and>
   queue_inv (requeue_src 2 (Some 0) 1 1 three_state) 0 [3, 1] \<and>
   lnext (flows (requeue_src 2 (Some 0) 1 1 three_state) 2) = None \<and>
   lprev (flows (requeue_src 2 (Some 0) 1 1 three_state) 2) = None \<and>
   lnext (flows (requeue_src 2 (Some 0) 1 1 three_state) 3) = Some 1 \<and>
   lprev (flows (requeue_src 2 (Some 0) 1 1 three_state) 1) = Some 3 \<and>
   queue_inv (FlowRequeue False 2 (Some 0) 1 1 three_state) 0 [3, 1] \<and>
   queue_inv (FlowRequeue False 2 (Some 0) 1 1 three_state) 1 [2] \<and>
   len (queues (FlowRequeue False 2 (Some 0) 1 1 three_state) 0) = 2 \<and>
   len (queues (FlowRequeue False 2 (Some 0) 1 1 three_state) 1) = 1 \<and>
   top_q (queues (FlowRequeue False 2 (Some 0) 1 1 three_state) 1) = Some 2 \<and>
   bot_q (queues (FlowRequeue False 2 (Some 0) 1 1 three_state) 1) = Some 2 \<and>
   queue_inv (FlowRequeue False 2 (Some 0) 0 1 three_state) 0 [3, 1, 2]"
proof -
  have h: "queue_inv three_state 0 ([3] @ 2 # [1])" using three_state_list by simp
  have e: "queue_inv three_state 1 []" by (rule three_state_other) simp
  have l1: "len (queues three_state 1) = 0" using e by (simp add: queue_inv_def)
  note t = FlowRequeue_postcondition [OF h, of 1 1 "[]" False]
  from t h e l1 three_state_len show ?thesis by simp
qed

section \<open>Round trip\<close>

text \<open>
  Claim C4. A record of queue \<open>a\<close> is transferred to a different queue \<open>b\<close> and at once
  back. Afterwards \<open>a\<close> holds the records it held, the record among them (now at \<open>bot\<close>);
  \<open>b\<close> and every third queue hold what they held, so the record is in none of them; both
  lengths are what they were.
\<close>

theorem FlowRequeue_round_trip:
  assumes "a \<noteq> b" and "queue_inv s a (xs @ f # ys)" and "queue_inv s b zs"
    and "set zs \<inter> set (xs @ f # ys) = {}"
  shows
    "queue_inv (FlowRequeue dbg f (Some b) a n2 (FlowRequeue dbg f (Some a) b n1 s)) a
       (xs @ ys @ [f]) \<and>
     queue_inv (FlowRequeue dbg f (Some b) a n2 (FlowRequeue dbg f (Some a) b n1 s)) b zs \<and>
     f \<notin> set zs \<and>
     len (queues (FlowRequeue dbg f (Some b) a n2 (FlowRequeue dbg f (Some a) b n1 s)) a)
       = len (queues s a) \<and>
     len (queues (FlowRequeue dbg f (Some b) a n2 (FlowRequeue dbg f (Some a) b n1 s)) b)
       = len (queues s b) \<and>
     (\<forall>c ws. c \<noteq> a \<and> c \<noteq> b \<and> queue_inv s c ws \<and>
        set ws \<inter> set (xs @ f # ys) = {} \<and> set ws \<inter> set zs = {} \<longrightarrow>
        queue_inv (FlowRequeue dbg f (Some b) a n2 (FlowRequeue dbg f (Some a) b n1 s)) c ws \<and>
        f \<notin> set ws)"
proof -
  let ?s1 = "FlowRequeue dbg f (Some a) b n1 s"
  let ?s2 = "FlowRequeue dbg f (Some b) a n2 ?s1"
  have dist: "distinct (xs @ f # ys)" using assms(2) by (rule queue_inv_distinct)
  have fz: "f \<notin> set zs" using assms(4) by auto
  have i1: "queue_inv ?s1 a (xs @ ys) \<and> queue_inv ?s1 b (zs @ [f])"
    using assms by (rule FlowRequeue_inv_distinct)
  then have a1: "queue_inv ?s1 a (xs @ ys)" and b1: "queue_inv ?s1 b (zs @ f # [])" by simp_all
  have dj: "set (xs @ ys) \<inter> set (zs @ f # []) = {}" using assms(4) dist by auto
  have ba: "b \<noteq> a" using assms(1) by simp
  have i2: "queue_inv ?s2 b (zs @ []) \<and> queue_inv ?s2 a ((xs @ ys) @ [f])"
    using ba b1 a1 dj by (rule FlowRequeue_inv_distinct)
  then have a2: "queue_inv ?s2 a (xs @ ys @ [f])" and b2: "queue_inv ?s2 b zs" by simp_all
  have la: "len (queues ?s2 a) = len (queues s a)"
    using a2 assms(2) by (simp add: queue_inv_def)
  have lb: "len (queues ?s2 b) = len (queues s b)"
    using b2 assms(3) by (simp add: queue_inv_def)
  have oth: "\<forall>c ws. c \<noteq> a \<and> c \<noteq> b \<and> queue_inv s c ws \<and>
        set ws \<inter> set (xs @ f # ys) = {} \<and> set ws \<inter> set zs = {} \<longrightarrow>
        queue_inv ?s2 c ws \<and> f \<notin> set ws"
  proof (intro allI impI)
    fix c ws
    assume h: "c \<noteq> a \<and> c \<noteq> b \<and> queue_inv s c ws \<and>
        set ws \<inter> set (xs @ f # ys) = {} \<and> set ws \<inter> set zs = {}"
    then have ca: "c \<noteq> a" and cb: "c \<noteq> b" and cw: "queue_inv s c ws"
      and wa: "set ws \<inter> set (xs @ f # ys) = {}" and wz: "set ws \<inter> set zs = {}" by simp_all
    have fw: "f \<notin> set ws" using wa by auto
    have o1: "a = b \<or> set zs \<inter> set (xs @ f # ys) = {}" using assms(4) by blast
    have c1: "queue_inv ?s1 c ws"
      using assms(2,3) o1 cw ca cb wa wz by (rule FlowRequeue_inv_other)
    have wb: "set ws \<inter> set (zs @ f # []) = {}" using wz fw by auto
    have wa': "set ws \<inter> set (xs @ ys) = {}" using wa by auto
    have o2: "b = a \<or> set (xs @ ys) \<inter> set (zs @ f # []) = {}" using dj by blast
    have "queue_inv ?s2 c ws"
      using b1 a1 o2 c1 cb ca wb wa' by (rule FlowRequeue_inv_other)
    then show "queue_inv ?s2 c ws \<and> f \<notin> set ws" using fw by simp
  qed
  show ?thesis by (intro conjI a2 b2 fz la lb oth)
qed

theorem FlowRequeue_round_trip_witness:
  "(0::nat) \<noteq> 1 \<and> queue_inv three_state 0 ([3] @ 2 # [1]) \<and> queue_inv three_state 1 [] \<and>
   queue_inv three_state 2 [] \<and>
   queue_inv (FlowRequeue False 2 (Some 1) 0 1 (FlowRequeue False 2 (Some 0) 1 1 three_state)) 0
     [3, 1, 2] \<and>
   queue_inv (FlowRequeue False 2 (Some 1) 0 1 (FlowRequeue False 2 (Some 0) 1 1 three_state)) 1 [] \<and>
   queue_inv (FlowRequeue False 2 (Some 1) 0 1 (FlowRequeue False 2 (Some 0) 1 1 three_state)) 2 [] \<and>
   len (queues (FlowRequeue False 2 (Some 1) 0 1 (FlowRequeue False 2 (Some 0) 1 1 three_state)) 0) = 3 \<and>
   len (queues (FlowRequeue False 2 (Some 1) 0 1 (FlowRequeue False 2 (Some 0) 1 1 three_state)) 1) = 0"
proof -
  have n: "(0::nat) \<noteq> 1" by simp
  have h: "queue_inv three_state 0 ([3] @ 2 # [1])" using three_state_list by simp
  have e: "queue_inv three_state 1 []" by (rule three_state_other) simp
  have e2: "queue_inv three_state 2 []" by (rule three_state_other) simp
  have l1: "len (queues three_state 1) = 0" using e by (simp add: queue_inv_def)
  have d: "set [] \<inter> set ([3] @ 2 # [1::nat]) = {}" by simp
  note t = FlowRequeue_round_trip [OF n h e d, of False 1 1]
  from t h e e2 l1 three_state_len show ?thesis by simp
qed

section \<open>Poll-remove\<close>

lemma FlowDequeue_result: "(fst (FlowDequeue q s) = None) = (bot_q (queues s q) = None)"
  by (simp add: FlowDequeue_def Let_def upd_defs split: option.splits)

lemma FlowDequeue_new_bot:
  "bot_q (queues s q) = Some b \<Longrightarrow> bot_q (queues (snd (FlowDequeue q s)) q) = lprev (flows s b)"
  by (simp add: FlowDequeue_def Let_def upd_defs split: option.splits)

text \<open>
  Claim C6. When \<open>bot\<close> is unset \<open>FlowDequeue\<close> returns \<open>NULL\<close> and changes nothing: it
  locks and unlocks the mutex and does not wait. Otherwise it returns the record at \<open>bot\<close>,
  both links of that record are \<open>NULL\<close> afterwards, the length is one less, and the queue
  holds the records it held without the last. It returns \<open>NULL\<close> exactly when \<open>bot\<close> was
  unset.
\<close>

theorem FlowDequeue_postcondition:
  "(bot_q (queues s q) = None \<longrightarrow>
      FlowDequeue q s = (None, s\<lparr>trace := trace s @ [MutexLock q, MutexUnlock q]\<rparr>)) \<and>
   (\<forall>b. bot_q (queues s q) = Some b \<longrightarrow>
      fst (FlowDequeue q s) = Some b \<and>
      lnext (flows (snd (FlowDequeue q s)) b) = None \<and>
      lprev (flows (snd (FlowDequeue q s)) b) = None \<and>
      len (queues (snd (FlowDequeue q s)) q) = len (queues s q) - 1 \<and>
      bot_q (queues (snd (FlowDequeue q s)) q) = lprev (flows s b) \<and>
      trace (snd (FlowDequeue q s)) = trace s @ [MutexLock q, MutexUnlock q]) \<and>
   (\<forall>xs b. queue_inv s q (xs @ [b]) \<longrightarrow>
      fst (FlowDequeue q s) = Some b \<and> queue_inv (snd (FlowDequeue q s)) q xs) \<and>
   (fst (FlowDequeue q s) = None) = (bot_q (queues s q) = None)"
proof -
  have 1: "bot_q (queues s q) = None \<longrightarrow>
      FlowDequeue q s = (None, s\<lparr>trace := trace s @ [MutexLock q, MutexUnlock q]\<rparr>)"
    by (simp add: FlowDequeue_empty)
  have 2: "\<forall>b. bot_q (queues s q) = Some b \<longrightarrow>
      fst (FlowDequeue q s) = Some b \<and>
      lnext (flows (snd (FlowDequeue q s)) b) = None \<and>
      lprev (flows (snd (FlowDequeue q s)) b) = None \<and>
      len (queues (snd (FlowDequeue q s)) q) = len (queues s q) - 1 \<and>
      bot_q (queues (snd (FlowDequeue q s)) q) = lprev (flows s b) \<and>
      trace (snd (FlowDequeue q s)) = trace s @ [MutexLock q, MutexUnlock q]"
    by (simp add: FlowDequeue_nonempty FlowDequeue_new_bot)
  have 3: "\<forall>xs b. queue_inv s q (xs @ [b]) \<longrightarrow>
      fst (FlowDequeue q s) = Some b \<and> queue_inv (snd (FlowDequeue q s)) q xs"
  proof (intro allI impI)
    fix xs b assume h: "queue_inv s q (xs @ [b])"
    then have "bot_q (queues s q) = Some b"
      using queue_list_bot [of s q xs b] by (simp add: queue_inv_def)
    then have "fst (FlowDequeue q s) = Some b" by (rule FlowDequeue_nonempty(1))
    moreover have "queue_inv (snd (FlowDequeue q s)) q xs" using h by (rule FlowDequeue_inv)
    ultimately show "fst (FlowDequeue q s) = Some b \<and> queue_inv (snd (FlowDequeue q s)) q xs"
      by simp
  qed
  show ?thesis by (intro conjI 1 2 3 FlowDequeue_result)
qed

theorem FlowDequeue_postcondition_witness:
  "bot_q (queues blank_state 0) = None \<and>
   FlowDequeue 0 blank_state = (None, blank_state\<lparr>trace := trace blank_state @ [MutexLock 0, MutexUnlock 0]\<rparr>) \<and>
   bot_q (queues three_state 0) = Some 1 \<and>
   queue_inv three_state 0 ([3, 2] @ [1]) \<and>
   fst (FlowDequeue 0 three_state) = Some 1 \<and>
   lnext (flows (snd (FlowDequeue 0 three_state)) 1) = None \<and>
   lprev (flows (snd (FlowDequeue 0 three_state)) 1) = None \<and>
   len (queues (snd (FlowDequeue 0 three_state)) 0) = 2 \<and>
   queue_inv (snd (FlowDequeue 0 three_state)) 0 [3, 2]"
proof -
  have e: "bot_q (queues blank_state 0) = None" by (simp add: blank_state_def zeroed_queue_def)
  have h: "queue_inv three_state 0 ([3, 2] @ [1])" using three_state_list by simp
  have b: "bot_q (queues three_state 0) = Some 1"
    using h queue_list_bot [of three_state 0 "[3, 2]" 1] by (simp add: queue_inv_def)
  note t1 = FlowDequeue_postcondition [of blank_state 0]
  note t2 = FlowDequeue_postcondition [of three_state 0]
  from t1 e have r1: "FlowDequeue 0 blank_state =
      (None, blank_state\<lparr>trace := trace blank_state @ [MutexLock 0, MutexUnlock 0]\<rparr>)" by blast
  from t2 b have r2: "fst (FlowDequeue 0 three_state) = Some 1 \<and>
      lnext (flows (snd (FlowDequeue 0 three_state)) 1) = None \<and>
      lprev (flows (snd (FlowDequeue 0 three_state)) 1) = None \<and>
      len (queues (snd (FlowDequeue 0 three_state)) 0) = len (queues three_state 0) - 1" by blast
  from t2 h have r3: "queue_inv (snd (FlowDequeue 0 three_state)) 0 [3, 2]" by blast
  from e r1 b h r2 r3 three_state_len show ?thesis by simp
qed

section \<open>Lock discipline of a transfer\<close>

lemma FlowRequeue_trace:
  "trace (FlowRequeue dbg f srcq d need s) = trace s @
     (case srcq of
        None \<Rightarrow> [MutexLock d, MutexUnlock d]
      | Some a \<Rightarrow>
          if a = d then (if need = 1 then [MutexLock d] else []) @ [MutexUnlock d]
          else (if need = 1 then [MutexLock a, MutexUnlock a] else []) @ [MutexLock d, MutexUnlock d])"
  by (simp add: FlowRequeue_def requeue_src_def requeue_dst_def Let_def SCMutexLock_def SCMutexUnlock_def
      requeue_remove_trace requeue_append_trace
      split: option.splits)

lemma FlowRequeue_events:
  "events_since s (FlowRequeue dbg f srcq d need s) =
     (case srcq of
        None \<Rightarrow> [MutexLock d, MutexUnlock d]
      | Some a \<Rightarrow>
          if a = d then (if need = 1 then [MutexLock d] else []) @ [MutexUnlock d]
          else (if need = 1 then [MutexLock a, MutexUnlock a] else []) @ [MutexLock d, MutexUnlock d])"
  by (simp add: events_since_def FlowRequeue_trace)

text \<open>
  Claim C3. The lock operations of one call of \<open>FlowRequeue\<close>, in their order. With
  different queues and \<open>need_srclock\<close> 1 the source is locked and unlocked before the
  destination is locked, and at no moment are both held; with \<open>need_srclock\<close> not 1 the
  call does not touch the source lock. With one and the same queue the lock is taken at
  most once. In every case the destination lock is released exactly once, as the last
  operation of the call.
\<close>

theorem FlowRequeue_lock_discipline:
  "events_since s (FlowRequeue dbg f srcq d need s) =
     (case srcq of
        None \<Rightarrow> [MutexLock d, MutexUnlock d]
      | Some a \<Rightarrow>
          if a = d then (if need = 1 then [MutexLock d] else []) @ [MutexUnlock d]
          else (if need = 1 then [MutexLock a, MutexUnlock a] else []) @ [MutexLock d, MutexUnlock d]) \<and>
   trace (FlowRequeue dbg f srcq d need s) = trace s @ events_since s (FlowRequeue dbg f srcq d need s) \<and>
   (\<forall>a. srcq = Some a \<and> a \<noteq> d \<and> need = 1 \<longrightarrow>
      events_since s (FlowRequeue dbg f srcq d need s)
        = [MutexLock a, MutexUnlock a, MutexLock d, MutexUnlock d] \<and>
      \<not> both_held a d {} (events_since s (FlowRequeue dbg f srcq d need s))) \<and>
   (\<forall>a. srcq = Some a \<and> a \<noteq> d \<and> need \<noteq> 1 \<longrightarrow>
      events_since s (FlowRequeue dbg f srcq d need s) = [MutexLock d, MutexUnlock d]) \<and>
   (srcq = Some d \<longrightarrow>
      events_since s (FlowRequeue dbg f srcq d need s)
        = (if need = 1 then [MutexLock d, MutexUnlock d] else [MutexUnlock d])) \<and>
   length (filter (\<lambda>e. e = MutexLock d) (events_since s (FlowRequeue dbg f srcq d need s))) \<le> 1 \<and>
   length (filter (\<lambda>e. e = MutexUnlock d) (events_since s (FlowRequeue dbg f srcq d need s))) = 1 \<and>
   last (trace (FlowRequeue dbg f srcq d need s)) = MutexUnlock d"
proof -
  note ev = FlowRequeue_events [of s dbg f srcq d need]
  have 2: "trace (FlowRequeue dbg f srcq d need s)
             = trace s @ events_since s (FlowRequeue dbg f srcq d need s)"
    by (simp add: ev FlowRequeue_trace)
  have 3: "\<forall>a. srcq = Some a \<and> a \<noteq> d \<and> need = 1 \<longrightarrow>
      events_since s (FlowRequeue dbg f srcq d need s)
        = [MutexLock a, MutexUnlock a, MutexLock d, MutexUnlock d] \<and>
      \<not> both_held a d {} (events_since s (FlowRequeue dbg f srcq d need s))"
    by (auto simp: FlowRequeue_events)
  have 4: "\<forall>a. srcq = Some a \<and> a \<noteq> d \<and> need \<noteq> 1 \<longrightarrow>
      events_since s (FlowRequeue dbg f srcq d need s) = [MutexLock d, MutexUnlock d]"
    by (auto simp: FlowRequeue_events)
  have 5: "srcq = Some d \<longrightarrow>
      events_since s (FlowRequeue dbg f srcq d need s)
        = (if need = 1 then [MutexLock d, MutexUnlock d] else [MutexUnlock d])"
    by (auto simp: FlowRequeue_events)
  have 6: "length (filter (\<lambda>e. e = MutexLock d) (events_since s (FlowRequeue dbg f srcq d need s))) \<le> 1"
    by (auto simp: FlowRequeue_events split: option.splits)
  have 7: "length (filter (\<lambda>e. e = MutexUnlock d) (events_since s (FlowRequeue dbg f srcq d need s))) = 1"
    by (auto simp: FlowRequeue_events split: option.splits)
  have 8: "last (trace (FlowRequeue dbg f srcq d need s)) = MutexUnlock d"
    by (auto simp: FlowRequeue_trace split: option.splits)
  show ?thesis by (intro conjI ev 2 3 4 5 6 7 8)
qed

text \<open>
  When the caller holds the source lock (\<open>need_srclock\<close> is not 1) the call does nothing
  to it, so it is held while the destination lock is taken.
\<close>

lemma FlowRequeue_caller_held_source:
  "a \<noteq> d \<Longrightarrow> need \<noteq> 1 \<Longrightarrow>
   both_held a d {a} (events_since s (FlowRequeue dbg f (Some a) d need s))"
  by (simp add: FlowRequeue_events)

theorem FlowRequeue_lock_discipline_witness:
  "events_since three_state (FlowRequeue False 2 (Some 0) 1 1 three_state)
     = [MutexLock 0, MutexUnlock 0, MutexLock 1, MutexUnlock 1] \<and>
   \<not> both_held 0 1 {} (events_since three_state (FlowRequeue False 2 (Some 0) 1 1 three_state)) \<and>
   events_since three_state (FlowRequeue False 2 (Some 0) 1 0 three_state)
     = [MutexLock 1, MutexUnlock 1] \<and>
   events_since three_state (FlowRequeue False 2 (Some 0) 0 1 three_state)
     = [MutexLock 0, MutexUnlock 0] \<and>
   events_since three_state (FlowRequeue False 2 (Some 0) 0 0 three_state)
     = [MutexUnlock 0]"
  using FlowRequeue_lock_discipline [of three_state False 2 "Some 0" 1 1]
    FlowRequeue_lock_discipline [of three_state False 2 "Some 0" 1 0]
    FlowRequeue_lock_discipline [of three_state False 2 "Some 0" 0 1]
    FlowRequeue_lock_discipline [of three_state False 2 "Some 0" 0 0]
  by simp

section \<open>Preservation of the structural invariant\<close>

lemma queue_inv_facts:
  assumes "queue_inv s q xs"
  shows "((top_q (queues s q) = None) = (bot_q (queues s q) = None)) \<and>
      ((bot_q (queues s q) = None) = (len (queues s q) = 0)) \<and>
      (\<forall>t. top_q (queues s q) = Some t \<longrightarrow> lprev (flows s t) = None) \<and>
      (\<forall>b. bot_q (queues s q) = Some b \<longrightarrow> lnext (flows s b) = None) \<and>
      chain lnext (flows s) (top_q (queues s q)) xs None \<and>
      chain lprev (flows s) (bot_q (queues s q)) (rev xs) None \<and>
      len (queues s q) = int (length xs)"
proof (cases xs)
  case Nil
  with assms show ?thesis by (simp add: queue_inv_def queue_list_def dll_def)
next
  case (Cons t xs')
  then have "xs \<noteq> []" by simp
  then have "xs = butlast xs @ [last xs]" by simp
  then obtain ys b where sn: "xs = ys @ [b]" by blast
  have ql: "queue_list s q xs" using assms by (simp add: queue_inv_def)
  have l: "len (queues s q) = int (length xs)" using assms by (simp add: queue_inv_def)
  have tp: "top_q (queues s q) = Some t" using ql Cons by (simp add: queue_list_top)
  have bt: "bot_q (queues s q) = Some b" using ql sn by (simp add: queue_list_bot)
  have "chain lprev (flows s) (bot_q (queues s q)) (rev xs' @ [t]) None"
    using ql Cons by (simp add: queue_list_def dll_def)
  then have pt: "lprev (flows s t) = None" by (simp add: chain_snoc)
  have "chain lnext (flows s) (top_q (queues s q)) (ys @ [b]) None"
    using ql sn by (simp add: queue_list_def dll_def)
  then have nb: "lnext (flows s b) = None" by (simp add: chain_snoc)
  have c: "chain lnext (flows s) (top_q (queues s q)) xs None \<and>
      chain lprev (flows s) (bot_q (queues s q)) (rev xs) None"
    using ql by (simp add: queue_list_def dll_def)
  from tp bt pt nb c l Cons show ?thesis by simp
qed

lemma FlowDequeue_inv_butlast:
  assumes "queue_inv s q xs"
  shows "queue_inv (snd (FlowDequeue q s)) q (butlast xs)"
proof (cases xs rule: rev_cases)
  case Nil
  then have "bot_q (queues s q) = None" using assms by (simp add: queue_inv_empty)
  then have "FlowDequeue q s = (None, s\<lparr>trace := trace s @ [MutexLock q, MutexUnlock q]\<rparr>)"
    by (rule FlowDequeue_empty)
  moreover have "queue_inv (s\<lparr>trace := trace s @ [MutexLock q, MutexUnlock q]\<rparr>) q xs
                 = queue_inv s q xs"
    by (rule queue_inv_cong) simp_all
  ultimately show ?thesis using assms Nil by simp
next
  case (snoc ys b)
  then show ?thesis using assms FlowDequeue_inv [of s q ys b] by simp
qed

lemma FlowEnqueue_inv_other:
  assumes "queue_inv s q xs" and "queue_inv s c ws" and "c \<noteq> q"
    and "set ws \<inter> set xs = {}" and "f \<notin> set ws"
  shows "queue_inv (FlowEnqueue dbg q f s) c ws"
proof (rule queue_inv_frame [OF assms(2)])
  fix x assume x: "x \<in> set ws"
  then have "x \<notin> set xs" using assms(4) by blast
  moreover have "x \<noteq> f" using x assms(5) by blast
  ultimately show "flows (FlowEnqueue dbg q f s) x = flows s x"
    using queue_inv_list [OF assms(1)] by (intro FlowEnqueue_flows_frame)
next
  show "queues (FlowEnqueue dbg q f s) c = queues s c"
    using assms(3) by (rule FlowEnqueue_other_queue)
qed

lemma FlowDequeue_inv_other:
  assumes "queue_inv s q xs" and "queue_inv s c ws" and "c \<noteq> q"
    and "set ws \<inter> set xs = {}"
  shows "queue_inv (snd (FlowDequeue q s)) c ws"
proof (rule queue_inv_frame [OF assms(2)])
  fix x assume x: "x \<in> set ws"
  then have "x \<notin> set xs" using assms(4) by blast
  then show "flows (snd (FlowDequeue q s)) x = flows s x"
    using queue_inv_list [OF assms(1)] by (intro FlowDequeue_flows_frame)
next
  show "queues (snd (FlowDequeue q s)) c = queues s c"
    using assms(3) by (rule FlowDequeue_other_queue)
qed

text \<open>
  Claim C5. The invariant \<open>queue_inv s q xs\<close> says that queue \<open>q\<close> is a doubly linked
  list of the records \<open>xs\<close> and that its length field is their number. It gives the
  properties of the specification: \<open>top\<close> is unset iff \<open>bot\<close> is unset iff the length is
  0; \<open>top\<close> has no predecessor and \<open>bot\<close> no successor; the traversals from \<open>top\<close> by
  \<open>lnext\<close> and from \<open>bot\<close> by \<open>lprev\<close> visit as many records as the length says. Under
  its precondition every operation takes a queue with the invariant to a queue with the
  invariant: \<open>FlowEnqueue\<close> of a record that is in no queue and has no links,
  \<open>FlowDequeue\<close>, \<open>FlowRequeue\<close> between two queues with no record in common, within
  one queue, and without a source queue. A queue that takes no part and shares no record
  keeps its invariant too.
\<close>

theorem structural_invariant_preserved:
  "(queue_inv s q xs \<longrightarrow>
      ((top_q (queues s q) = None) = (bot_q (queues s q) = None)) \<and>
      ((bot_q (queues s q) = None) = (len (queues s q) = 0)) \<and>
      (\<forall>t. top_q (queues s q) = Some t \<longrightarrow> lprev (flows s t) = None) \<and>
      (\<forall>b. bot_q (queues s q) = Some b \<longrightarrow> lnext (flows s b) = None) \<and>
      chain lnext (flows s) (top_q (queues s q)) xs None \<and>
      chain lprev (flows s) (bot_q (queues s q)) (rev xs) None \<and>
      len (queues s q) = int (length xs)) \<and>
   (queue_inv s q xs \<and> f \<notin> set xs \<and> lnext (flows s f) = None \<and> lprev (flows s f) = None \<longrightarrow>
      queue_inv (FlowEnqueue dbg q f s) q (f # xs)) \<and>
   (queue_inv s q xs \<longrightarrow> queue_inv (snd (FlowDequeue q s)) q (butlast xs)) \<and>
   (queue_inv s q (ps @ f # ns) \<and> queue_inv s d zs \<and> q \<noteq> d \<and>
    set zs \<inter> set (ps @ f # ns) = {} \<longrightarrow>
      queue_inv (FlowRequeue dbg f (Some q) d need s) q (ps @ ns) \<and>
      queue_inv (FlowRequeue dbg f (Some q) d need s) d (zs @ [f])) \<and>
   (queue_inv s q (ps @ f # ns) \<longrightarrow>
      queue_inv (FlowRequeue dbg f (Some q) q need s) q (ps @ ns @ [f])) \<and>
   (queue_inv s d zs \<and> f \<notin> set zs \<longrightarrow>
      queue_inv (FlowRequeue dbg f None d need s) d (zs @ [f])) \<and>
   (queue_inv s q xs \<and> queue_inv s c ws \<and> c \<noteq> q \<and> set ws \<inter> set xs = {} \<and> f \<notin> set ws \<longrightarrow>
      queue_inv (FlowEnqueue dbg q f s) c ws \<and>
      queue_inv (snd (FlowDequeue q s)) c ws \<and>
      queue_inv (FlowRequeue dbg f None q need s) c ws) \<and>
   (queue_inv s q (ps @ f # ns) \<and> queue_inv s d zs \<and>
    (q = d \<or> set zs \<inter> set (ps @ f # ns) = {}) \<and>
    queue_inv s c ws \<and> c \<noteq> q \<and> c \<noteq> d \<and>
    set ws \<inter> set (ps @ f # ns) = {} \<and> set ws \<inter> set zs = {} \<longrightarrow>
      queue_inv (FlowRequeue dbg f (Some q) d need s) c ws)"
proof -
  have 1: "queue_inv s q xs \<longrightarrow>
      ((top_q (queues s q) = None) = (bot_q (queues s q) = None)) \<and>
      ((bot_q (queues s q) = None) = (len (queues s q) = 0)) \<and>
      (\<forall>t. top_q (queues s q) = Some t \<longrightarrow> lprev (flows s t) = None) \<and>
      (\<forall>b. bot_q (queues s q) = Some b \<longrightarrow> lnext (flows s b) = None) \<and>
      chain lnext (flows s) (top_q (queues s q)) xs None \<and>
      chain lprev (flows s) (bot_q (queues s q)) (rev xs) None \<and>
      len (queues s q) = int (length xs)"
    using queue_inv_facts [of s q xs] by blast
  have 2: "queue_inv s q xs \<and> f \<notin> set xs \<and> lnext (flows s f) = None \<and> lprev (flows s f) = None \<longrightarrow>
      queue_inv (FlowEnqueue dbg q f s) q (f # xs)"
    using FlowEnqueue_inv [of s q xs f dbg] by blast
  have 3: "queue_inv s q xs \<longrightarrow> queue_inv (snd (FlowDequeue q s)) q (butlast xs)"
    using FlowDequeue_inv_butlast [of s q xs] by blast
  have 4: "queue_inv s q (ps @ f # ns) \<and> queue_inv s d zs \<and> q \<noteq> d \<and>
    set zs \<inter> set (ps @ f # ns) = {} \<longrightarrow>
      queue_inv (FlowRequeue dbg f (Some q) d need s) q (ps @ ns) \<and>
      queue_inv (FlowRequeue dbg f (Some q) d need s) d (zs @ [f])"
    using FlowRequeue_inv_distinct [of q d s ps f ns zs dbg need] by blast
  have 5: "queue_inv s q (ps @ f # ns) \<longrightarrow>
      queue_inv (FlowRequeue dbg f (Some q) q need s) q (ps @ ns @ [f])"
    using FlowRequeue_inv_same [of s q ps f ns dbg need] by blast
  have 6: "queue_inv s d zs \<and> f \<notin> set zs \<longrightarrow>
      queue_inv (FlowRequeue dbg f None d need s) d (zs @ [f])"
    using FlowRequeue_inv_first [of s d zs f dbg need] by blast
  have 7: "queue_inv s q xs \<and> queue_inv s c ws \<and> c \<noteq> q \<and> set ws \<inter> set xs = {} \<and> f \<notin> set ws \<longrightarrow>
      queue_inv (FlowEnqueue dbg q f s) c ws \<and>
      queue_inv (snd (FlowDequeue q s)) c ws \<and>
      queue_inv (FlowRequeue dbg f None q need s) c ws"
    using FlowEnqueue_inv_other [of s q xs c ws f dbg] FlowDequeue_inv_other [of s q xs c ws]
      FlowRequeue_inv_first_other [of s q xs c ws f dbg need] by blast
  have 8: "queue_inv s q (ps @ f # ns) \<and> queue_inv s d zs \<and>
    (q = d \<or> set zs \<inter> set (ps @ f # ns) = {}) \<and>
    queue_inv s c ws \<and> c \<noteq> q \<and> c \<noteq> d \<and>
    set ws \<inter> set (ps @ f # ns) = {} \<and> set ws \<inter> set zs = {} \<longrightarrow>
      queue_inv (FlowRequeue dbg f (Some q) d need s) c ws"
    using FlowRequeue_inv_other [of s q ps f ns d zs c ws dbg need] by blast
  show ?thesis by (intro conjI 1 2 3 4 5 6 7 8)
qed


lemma three_state_free: "lnext (flows three_state 4) = None \<and> lprev (flows three_state 4) = None"
  by (simp add: three_state_def blank_state_def zeroed_queue_def FlowEnqueue_def Let_def upd_defs)

theorem structural_invariant_preserved_witness:
  "queue_inv three_state 0 [3, 2, 1] \<and> queue_inv three_state 1 [] \<and> queue_inv three_state 2 [] \<and>
   lnext (flows three_state 4) = None \<and> lprev (flows three_state 4) = None \<and>
   top_q (queues three_state 0) = Some 3 \<and> bot_q (queues three_state 0) = Some 1 \<and>
   lprev (flows three_state 3) = None \<and> lnext (flows three_state 1) = None \<and>
   len (queues three_state 0) = 3 \<and>
   queue_inv (FlowEnqueue False 0 4 three_state) 0 [4, 3, 2, 1] \<and>
   queue_inv (FlowEnqueue False 0 4 three_state) 1 [] \<and>
   queue_inv (snd (FlowDequeue 0 three_state)) 0 [3, 2] \<and>
   queue_inv (snd (FlowDequeue 0 three_state)) 1 [] \<and>
   queue_inv (FlowRequeue False 4 None 1 1 three_state) 1 [4] \<and>
   queue_inv (FlowRequeue False 4 None 1 1 three_state) 0 [3, 2, 1] \<and>
   queue_inv (FlowRequeue False 2 (Some 0) 1 1 three_state) 0 [3, 1] \<and>
   queue_inv (FlowRequeue False 2 (Some 0) 1 1 three_state) 1 [2] \<and>
   queue_inv (FlowRequeue False 2 (Some 0) 1 1 three_state) 2 [] \<and>
   queue_inv (FlowRequeue False 2 (Some 0) 0 1 three_state) 0 [3, 1, 2]"
proof -
  have h0: "queue_inv three_state 0 [3, 2, 1]" by (rule three_state_list)
  have h1: "queue_inv three_state 1 []" by (rule three_state_other) simp
  have h2: "queue_inv three_state 2 []" by (rule three_state_other) simp
  note fr = three_state_free
  note A = structural_invariant_preserved [where s = three_state and q = 0 and xs = "[3, 2, 1]"
      and f = 4 and dbg = False and d = 1 and zs = "[]" and c = 1 and ws = "[]" and need = 1]
  note A' = structural_invariant_preserved [where s = three_state and q = 1 and xs = "[]"
      and f = 4 and dbg = False and c = 0 and ws = "[3, 2, 1]" and need = 1]
  note B = structural_invariant_preserved [where s = three_state and q = 0 and ps = "[3]"
      and f = 2 and ns = "[1]" and dbg = False and d = 1 and zs = "[]" and c = 2 and ws = "[]"
      and need = 1]
  from A h0 have a1: "top_q (queues three_state 0) = Some 3 \<and> bot_q (queues three_state 0) = Some 1 \<and>
   lprev (flows three_state 3) = None \<and> lnext (flows three_state 1) = None \<and>
   len (queues three_state 0) = 3" by (simp add: chain_snoc)
  from A h0 h1 fr have a2: "queue_inv (FlowEnqueue False 0 4 three_state) 0 [4, 3, 2, 1] \<and>
   queue_inv (FlowEnqueue False 0 4 three_state) 1 [] \<and>
   queue_inv (snd (FlowDequeue 0 three_state)) 0 [3, 2] \<and>
   queue_inv (snd (FlowDequeue 0 three_state)) 1 [] \<and>
   queue_inv (FlowRequeue False 4 None 1 1 three_state) 1 [4]" by simp
  from A' h0 h1 have a3: "queue_inv (FlowRequeue False 4 None 1 1 three_state) 0 [3, 2, 1]" by simp
  from B h0 h1 h2 have b1: "queue_inv (FlowRequeue False 2 (Some 0) 1 1 three_state) 0 [3, 1] \<and>
   queue_inv (FlowRequeue False 2 (Some 0) 1 1 three_state) 1 [2] \<and>
   queue_inv (FlowRequeue False 2 (Some 0) 1 1 three_state) 2 [] \<and>
   queue_inv (FlowRequeue False 2 (Some 0) 0 1 three_state) 0 [3, 1, 2]" by simp
  from h0 h1 h2 fr a1 a2 a3 b1 show ?thesis by simp
qed

section \<open>Outcomes of reading one ERF record\<close>





lemmas erf_example_defs = ReceiveErfFile_def fread1_def sizeof_DagRecord_def erf_vars_def
  erf_header_def fresh_packet_def ntohs_at_def dr_type_def DAG_TYPE_ETH_def dr_ts_def
  store_pkt_data_def erf_timeval_def Let_def




text \<open>
  A \<open>wlen\<close> below 4 wraps the packet length around; a frame longer than the packet
  buffer is written past its end; a read error with a whole record in the stream stops
  the engine as the end of the stream does.
\<close>

lemma ReceiveErfFile_short_wlen_example:
  "ReceiveErfFile 1 fresh_packet (erf_vars (erf_header 2 0 @ [1, 2, 3, 4]) False) =
     Inr \<lparr>ecode = TM_ECODE_OK, engine_stopped = False,
          pkt = \<lparr>pkt_data = [1, 2, 3, 4, 0, 0, 0, 0], pktlen = 4294967292, datalink = 1,
                 ts = \<lparr>tv_sec = 1, tv_usec = 0\<rparr>\<rparr>,
          etv = \<lparr>erf = \<lparr>content = [], io_error = False\<rparr>, pkts = 1, bytes = 0\<rparr>\<rparr>"
  by (simp add: erf_example_defs)

lemma ReceiveErfFile_small_buffer_example:
  "ReceiveErfFile 1 (fresh_packet\<lparr>pkt_data := [0, 0]\<rparr>)
     (erf_vars (erf_header 2 8 @ [1, 2, 3, 4]) False) = Inl WritePastPacketBuffer"
  by (simp add: erf_example_defs)

lemma ReceiveErfFile_io_error_example:
  "ReceiveErfFile 1 fresh_packet (erf_vars (erf_header 2 8 @ [1, 2, 3, 4]) True) =
     Inr \<lparr>ecode = TM_ECODE_FAILED, engine_stopped = True, pkt = fresh_packet,
          etv = erf_vars (erf_header 2 8 @ [1, 2, 3, 4]) True\<rparr>"
  by (simp add: erf_example_defs)

end
